theory Spec2Isabelle
  imports Complex_Main "HOL-Library.Multiset"
begin

section \<open>Data model of \<open>src/eval_prm/run_eval_with_vllm.py\<close>\<close>

text \<open>
  Python exceptions are values. \<open>Exception\<close> stands for any other exception a
  collaborator (generator, extractor, grader, aggregation function) may raise.
\<close>

datatype py_error =
  KeyError | IndexError | ZeroDivisionError | TypeError | AttributeError | Exception string

text \<open>
  One per-generation record of an EvalResult, as the script builds it
  (\<open>{"pred": ..., "correct": ...}\<close>); \<open>step_rewards\<close> is the optional key read
  with \<open>generation.get("step_rewards", None)\<close>.
  Python floats are modelled as exact rationals throughout.
\<close>

record generation_rec =
  g_pred :: string
  g_step_rewards :: "rat list option"
  g_correct :: bool

record eval_result =
  er_dataset :: string
  er_generation :: "generation_rec list"

text \<open>The dictionary built for every generation in lines 22-30.\<close>

record eval_sample =
  es_dataset :: string
  es_ans :: string
  es_scores :: "rat list option"
  es_correct :: bool

text \<open>
  The decision record an aggregation function returns; the function reads its
  \<open>"dataset"\<close> and \<open>"correct"\<close> keys.
\<close>

record decision =
  fr_dataset :: string
  fr_ans :: "string option"
  fr_correct :: bool

text \<open>
  A row of the result: a per-dataset dictionary with the four keys of lines 45-50, or the
  final \<open>{"Average": ...}\<close> dictionary.
\<close>

datatype metric =
  Metric (m_dataset: string) (m_total: nat) (m_correct: nat) (m_accuracy: rat)
| Average (m_average: rat)

fun is_Metric :: "metric \<Rightarrow> bool" where
  "is_Metric (Metric d t c a) = True"
| "is_Metric (Average a) = False"

section \<open>Python primitives used by the function\<close>

text \<open>The slice \<open>xs[:k]\<close>: a negative bound counts from the end.\<close>

definition py_slice_to :: "int \<Rightarrow> 'a list \<Rightarrow> 'a list" where
  "py_slice_to k xs =
     (if 0 \<le> k then take (nat k) xs else take (length xs - nat (- k)) xs)"

text \<open>
  \<open>defaultdict(int)\<close>: a dictionary in insertion order, as an association list.
  Reading a missing key gives 0; \<open>d[k] += 1\<close> updates an existing key in place and
  appends a new key at the end.
\<close>

type_synonym counter = "(string \<times> nat) list"

fun dd_get :: "counter \<Rightarrow> string \<Rightarrow> nat" where
  "dd_get [] k = 0"
| "dd_get ((k', v) # d) k = (if k' = k then v else dd_get d k)"

fun dd_incr :: "counter \<Rightarrow> string \<Rightarrow> counter" where
  "dd_incr [] k = [(k, 1)]"
| "dd_incr ((k', v) # d) k = (if k' = k then (k', v + 1) # d else (k', v) # dd_incr d k)"

text \<open>True division \<open>a / b\<close> of two integers raises on a zero divisor.\<close>

definition py_truediv :: "nat \<Rightarrow> nat \<Rightarrow> py_error + rat" where
  "py_truediv a b = (if b = 0 then Inl ZeroDivisionError else Inr (of_nat a / of_nat b))"

text \<open>\<open>np.mean\<close> of a non-empty list of floats.\<close>

definition np_mean :: "rat list \<Rightarrow> rat" where
  "np_mean xs = sum_list xs / of_nat (length xs)"

section \<open>\<open>compute_metrics_fn\<close>\<close>

text \<open>
  \<open>AGG_FN_MAP\<close> is imported from \<open>src/eval_utils/vote.py\<close>; here it is a
  parameter: a dictionary from method names to aggregation functions, each of which may
  raise.
\<close>

type_synonym agg_fn = "eval_sample list \<Rightarrow> py_error + decision"
type_synonym agg_fn_map = "string \<Rightarrow> agg_fn option"

definition eval_samples_of :: "int \<Rightarrow> eval_result \<Rightarrow> eval_sample list" where
  "eval_samples_of k sample =
     map (\<lambda>generation.
            \<lparr>es_dataset = er_dataset sample,
             es_ans = g_pred generation,
             es_scores = g_step_rewards generation,
             es_correct = g_correct generation\<rparr>)
         (py_slice_to k (er_generation sample))"

text \<open>Lines 20-32; the dictionary lookup \<open>AGG_FN_MAP[agg_method]\<close> is inside the loop.\<close>

fun final_results_loop ::
  "agg_fn_map \<Rightarrow> int \<Rightarrow> string \<Rightarrow> eval_result list \<Rightarrow> decision list
     \<Rightarrow> py_error + decision list" where
  "final_results_loop AGG_FN_MAP k agg_method [] final_results = Inr final_results"
| "final_results_loop AGG_FN_MAP k agg_method (sample # rest) final_results =
     (case AGG_FN_MAP agg_method of
        None \<Rightarrow> Inl KeyError
      | Some f \<Rightarrow>
          (case f (eval_samples_of k sample) of
             Inl e \<Rightarrow> Inl e
           | Inr final_result \<Rightarrow>
               final_results_loop AGG_FN_MAP k agg_method rest
                 (final_results @ [final_result])))"

text \<open>Lines 34-40: the state is the pair of counters.\<close>

fun count_loop :: "decision list \<Rightarrow> counter \<times> counter \<Rightarrow> counter \<times> counter" where
  "count_loop [] (dataset_counts, dataset_correct) = (dataset_counts, dataset_correct)"
| "count_loop (result # rest) (dataset_counts, dataset_correct) =
     count_loop rest
       (dd_incr dataset_counts (fr_dataset result),
        if fr_correct result then dd_incr dataset_correct (fr_dataset result)
        else dataset_correct)"

text \<open>
  Lines 42-50, over \<open>dataset_counts.items()\<close>; the source's \<open>count\<close> is written
  \<open>cnt\<close>.
\<close>

fun metrics_loop :: "counter \<Rightarrow> counter \<Rightarrow> metric list \<Rightarrow> py_error + metric list" where
  "metrics_loop [] dataset_correct metrics = Inr metrics"
| "metrics_loop ((dataset, cnt) # rest) dataset_correct metrics =
     (let correct = dd_get dataset_correct dataset in
      case py_truediv correct cnt of
        Inl e \<Rightarrow> Inl e
      | Inr accuracy \<Rightarrow>
          metrics_loop rest dataset_correct
            (metrics @ [Metric dataset cnt correct accuracy]))"

text \<open>Lines 52-54.\<close>

definition append_average :: "metric list \<Rightarrow> metric list" where
  "append_average metrics =
     (let average_accuracy = (if metrics \<noteq> [] then np_mean (map m_accuracy metrics) else 0)
      in metrics @ [Average average_accuracy])"

definition compute_metrics_fn ::
  "agg_fn_map \<Rightarrow> eval_result list \<Rightarrow> int \<Rightarrow> string \<Rightarrow> py_error + metric list" where
  "compute_metrics_fn AGG_FN_MAP eval_results k agg_method =
     (case final_results_loop AGG_FN_MAP k agg_method eval_results [] of
        Inl e \<Rightarrow> Inl e
      | Inr final_results \<Rightarrow>
          (case count_loop final_results ([], []) of
             (dataset_counts, dataset_correct) \<Rightarrow>
               (case metrics_loop dataset_counts dataset_correct [] of
                  Inl e \<Rightarrow> Inl e
                | Inr metrics \<Rightarrow> Inr (append_average metrics))))"

section \<open>The aggregation functions\<close>

text \<open>
  Modelled from the spec: \<open>src/eval_utils/vote.py\<close>, which defines \<open>AGG_FN_MAP\<close>
  and the functions behind \<open>"pass"\<close> and \<open>"majority_vote"\<close>, is not among the
  sources. The spec (section 4.1) gives each policy as a function from a list of
  per-generation records to one decision record \<open>{dataset, predicted answer or none,
  correct}\<close>:
  \<^item> \<open>pass\<close>: correct if the first of the k records is marked correct;
  \<^item> \<open>majority_vote\<close>: group the k predictions by extracted-answer equality, pick the
    modal group, correct if that group's representative was marked correct; ties broken
    by earliest-occurring group.
  The representative of a group is taken to be its earliest record. The spec requires at
  least one record; on an empty list both functions raise here.
\<close>

definition agg_pass :: agg_fn where
  "agg_pass records =
     (case records of
        [] \<Rightarrow> Inl IndexError
      | first # _ \<Rightarrow>
          Inr \<lparr>fr_dataset = es_dataset first, fr_ans = Some (es_ans first),
               fr_correct = es_correct first\<rparr>)"

text \<open>The size of the group of answer \<open>a\<close> among the records.\<close>

definition vote_count :: "eval_sample list \<Rightarrow> string \<Rightarrow> nat" where
  "vote_count records a = length (filter (\<lambda>r. es_ans r = a) records)"

text \<open>
  A scan in list order that keeps the best record so far and replaces it only by a record
  of a strictly larger group: the result is the earliest record of the earliest-occurring
  group of maximal size.
\<close>

fun modal_rep :: "eval_sample list \<Rightarrow> eval_sample \<Rightarrow> eval_sample list \<Rightarrow> eval_sample" where
  "modal_rep records best [] = best"
| "modal_rep records best (r # rest) =
     modal_rep records
       (if vote_count records (es_ans best) < vote_count records (es_ans r) then r else best)
       rest"

definition agg_majority_vote :: agg_fn where
  "agg_majority_vote records =
     (case records of
        [] \<Rightarrow> Inl IndexError
      | first # rest \<Rightarrow>
          (let rep = modal_rep records first rest in
           Inr \<lparr>fr_dataset = es_dataset rep, fr_ans = Some (es_ans rep),
                fr_correct = es_correct rep\<rparr>))"

definition AGG_FN_MAP :: agg_fn_map where
  "AGG_FN_MAP = [''pass'' \<mapsto> agg_pass, ''majority_vote'' \<mapsto> agg_majority_vote]"

section \<open>The script: loading, generation loop, grading\<close>

text \<open>Values of a loaded sample's fields, with Python's truth value.\<close>

datatype pyval = PNone | PBool bool | PInt int | PStr string

fun truthy :: "pyval \<Rightarrow> bool" where
  "truthy PNone = False"
| "truthy (PBool b) = b"
| "truthy (PInt i) = (i \<noteq> 0)"
| "truthy (PStr s) = (s \<noteq> [])"

text \<open>A sample is a dictionary; \<open>sample.get(k)\<close> gives \<open>None\<close> for a missing key.\<close>

type_synonym sample = "(string \<times> pyval) list"

definition sample_get :: "sample \<Rightarrow> string \<Rightarrow> pyval" where
  "sample_get sample k = (case map_of sample k of None \<Rightarrow> PNone | Some v \<Rightarrow> v)"

text \<open>
  The dictionary of lines 127-133. The key \<open>"correct"\<close> is absent until the grading
  loop sets it.
\<close>

record generation =
  gen_dataset :: string
  gen_question :: pyval
  gen_response :: string
  gen_pred :: string
  gen_gt_ans :: pyval
  gen_correct :: "bool option"

text \<open>
  The command-line arguments the loops read and the collaborators they call, each of which
  may raise. \<open>generate_output\<close> samples from a model, so its outcome is given per
  call: the first argument is the index of the sample the call is made for.
\<close>

record env =
  data_name :: string
  generate_output :: "nat \<Rightarrow> pyval \<Rightarrow> py_error + string"
  extract_and_strip :: "string \<Rightarrow> string \<Rightarrow> py_error + string"
  parse_ground_truth :: "sample \<Rightarrow> string \<Rightarrow> py_error + pyval list"
  math_equal :: "string \<Rightarrow> pyval \<Rightarrow> py_error + bool"

text \<open>What the script prints.\<close>

datatype log_line =
  Warning_skipping "string list"
| Error_generation pyval py_error
| Info_checkpoint nat
| Error_evaluation string pyval py_error

text \<open>Lines 76-77: the cap on the loaded samples.\<close>

definition cap_datasets :: "int \<Rightarrow> sample list \<Rightarrow> sample list" where
  "cap_datasets num_test_sample datasets =
     (if num_test_sample \<noteq> 0 then py_slice_to num_test_sample datasets else datasets)"

text \<open>
  Modelled from the spec: \<open>save_jsonl\<close> of \<open>src/eval_utils/data.py\<close> is not among
  the sources. By section 6 the file is overwritten wholesale each time: whatever it held,
  it then holds the records written.
\<close>

definition save_jsonl :: "generation list \<Rightarrow> generation list option \<Rightarrow> generation list option" where
  "save_jsonl records file = Some records"

record loop_state =
  generations :: "generation list"
  checkpoint_file :: "generation list option"
  stdout :: "log_line list"

definition checkpoint_interval :: nat where
  "checkpoint_interval = 100"

text \<open>Line 116: the first truthy value among the four question keys, else \<open>None\<close>.\<close>

definition find_prompt :: "sample \<Rightarrow> pyval" where
  "find_prompt sample =
     (case filter truthy (map (sample_get sample) [''question'', ''prompt'', ''input'', ''problem'']) of
        [] \<Rightarrow> PNone
      | v # _ \<Rightarrow> v)"

text \<open>Line 132: \<open>sample.get("answer") or parse_ground_truth(sample, data_name)[-1]\<close>.\<close>

definition gt_ans_of :: "env \<Rightarrow> sample \<Rightarrow> py_error + pyval" where
  "gt_ans_of env sample =
     (let answer = sample_get sample ''answer'' in
      if truthy answer then Inr answer
      else (case parse_ground_truth env sample (data_name env) of
              Inl e \<Rightarrow> Inl e
            | Inr parsed \<Rightarrow> if parsed = [] then Inl IndexError else Inr (last parsed)))"

text \<open>
  The body of the loop of lines 115-139 for one \<open>(idx, sample)\<close>. \<open>Inl\<close> is an
  exception that leaves the loop and ends the run; the two \<open>continue\<close> branches return
  the state with one more printed line.
\<close>

definition loop_body :: "env \<Rightarrow> loop_state \<Rightarrow> nat \<times> sample \<Rightarrow> py_error + loop_state" where
  "loop_body env st p =
     (case p of (idx, sample) \<Rightarrow>
        let prompt = find_prompt sample in
        if \<not> truthy prompt
        then Inr (st\<lparr>stdout := stdout st @ [Warning_skipping (map fst sample)]\<rparr>)
        else
          (case generate_output env idx prompt of
             Inl e \<Rightarrow> Inr (st\<lparr>stdout := stdout st @ [Error_generation prompt e]\<rparr>)
           | Inr output_text \<Rightarrow>
               (case extract_and_strip env output_text (data_name env) of
                  Inl e \<Rightarrow> Inl e
                | Inr pred \<Rightarrow>
                    (case gt_ans_of env sample of
                       Inl e \<Rightarrow> Inl e
                     | Inr gt \<Rightarrow>
                         let generation =
                               \<lparr>gen_dataset = data_name env, gen_question = prompt,
                                gen_response = output_text, gen_pred = pred,
                                gen_gt_ans = gt, gen_correct = None\<rparr>;
                             st' = st\<lparr>generations := generations st @ [generation]\<rparr>
                         in if (idx + 1) mod checkpoint_interval = 0
                            then Inr (st'\<lparr>checkpoint_file :=
                                             save_jsonl (generations st') (checkpoint_file st'),
                                          stdout := stdout st' @ [Info_checkpoint (idx + 1)]\<rparr>)
                            else Inr st'))))"

fun gen_loop :: "env \<Rightarrow> loop_state \<Rightarrow> (nat \<times> sample) list \<Rightarrow> py_error + loop_state" where
  "gen_loop env st [] = Inr st"
| "gen_loop env st (p # rest) =
     (case loop_body env st p of
        Inl e \<Rightarrow> Inl e
      | Inr st' \<Rightarrow> gen_loop env st' rest)"

text \<open>Lines 111-139 on the (capped) list of samples.\<close>

definition generate_responses :: "env \<Rightarrow> sample list \<Rightarrow> py_error + loop_state" where
  "generate_responses env datasets =
     gen_loop env \<lparr>generations = [], checkpoint_file = None, stdout = []\<rparr>
       (enumerate 0 datasets)"

text \<open>
  Lines 148-153: the grading loop sets \<open>"correct"\<close> in every record, in place.
  \<open>grade\<close> is its body: the updated record and what it prints.
\<close>

definition grade :: "env \<Rightarrow> generation \<Rightarrow> generation \<times> log_line list" where
  "grade env gen =
     (case math_equal env (gen_pred gen) (gen_gt_ans gen) of
        Inr b \<Rightarrow> (gen\<lparr>gen_correct := Some b\<rparr>, [])
      | Inl e \<Rightarrow>
          (gen\<lparr>gen_correct := Some False\<rparr>,
           [Error_evaluation (gen_pred gen) (gen_gt_ans gen) e]))"

fun evaluation_loop ::
  "env \<Rightarrow> generation list \<Rightarrow> generation list \<times> log_line list" where
  "evaluation_loop env [] = ([], [])"
| "evaluation_loop env (gen # rest) =
     (case grade env gen of
        (gen', out) \<Rightarrow>
          (case evaluation_loop env rest of
             (rest', out') \<Rightarrow> (gen' # rest', out @ out')))"

text \<open>Lines 161-166; \<open>g["correct"]\<close> raises on a record that was never graded.\<close>

fun build_eval_results :: "generation list \<Rightarrow> py_error + eval_result list" where
  "build_eval_results [] = Inr []"
| "build_eval_results (g # rest) =
     (case gen_correct g of
        None \<Rightarrow> Inl KeyError
      | Some c \<Rightarrow>
          (case build_eval_results rest of
             Inl e \<Rightarrow> Inl e
           | Inr eval_results \<Rightarrow>
               Inr (\<lparr>er_dataset = gen_dataset g,
                     er_generation = [\<lparr>g_pred = gen_pred g, g_step_rewards = None,
                                       g_correct = c\<rparr>]\<rparr> # eval_results)))"

section \<open>\<open>compute_metrics_fn\<close> over a store\<close>

text \<open>
  For what the function does to the objects it is given, the same function over an explicit
  store. A value is a constant or a reference; the store is the list of the objects
  allocated so far, an object's address being its index; a new object goes to the end.
\<close>

datatype pyv = VNone | VBool bool | VNum rat | VStr string | VRef nat

datatype pyobj = PyList "pyv list" | PyDict "(string \<times> pyv) list"

type_synonym heap = "pyobj list"

definition alloc :: "pyobj \<Rightarrow> heap \<Rightarrow> pyv \<times> heap" where
  "alloc ob h = (VRef (length h), h @ [ob])"

text \<open>
  Reading: the object behind a value, a list's elements, \<open>d[k]\<close> and \<open>d.get(k, None)\<close>
  on a dictionary. A value of the wrong kind raises.
\<close>

definition deref :: "heap \<Rightarrow> pyv \<Rightarrow> py_error + pyobj" where
  "deref h v =
     (case v of
        VRef a \<Rightarrow> if a < length h then Inr (h ! a) else Inl TypeError
      | _ \<Rightarrow> Inl TypeError)"

definition get_list :: "heap \<Rightarrow> pyv \<Rightarrow> py_error + pyv list" where
  "get_list h v =
     (case deref h v of
        Inl e \<Rightarrow> Inl e
      | Inr (PyList xs) \<Rightarrow> Inr xs
      | Inr (PyDict kvs) \<Rightarrow> Inl TypeError)"

definition get_item :: "heap \<Rightarrow> pyv \<Rightarrow> string \<Rightarrow> py_error + pyv" where
  "get_item h v k =
     (case deref h v of
        Inl e \<Rightarrow> Inl e
      | Inr (PyList xs) \<Rightarrow> Inl TypeError
      | Inr (PyDict kvs) \<Rightarrow> (case map_of kvs k of None \<Rightarrow> Inl KeyError | Some x \<Rightarrow> Inr x))"

definition get_or_none :: "heap \<Rightarrow> pyv \<Rightarrow> string \<Rightarrow> py_error + pyv" where
  "get_or_none h v k =
     (case deref h v of
        Inl e \<Rightarrow> Inl e
      | Inr (PyList xs) \<Rightarrow> Inl AttributeError
      | Inr (PyDict kvs) \<Rightarrow> (case map_of kvs k of None \<Rightarrow> Inr VNone | Some x \<Rightarrow> Inr x))"

text \<open>\<open>xs.append(x)\<close> updates the list object in place.\<close>

definition list_append :: "pyv \<Rightarrow> pyv \<Rightarrow> heap \<Rightarrow> py_error + heap" where
  "list_append v x h =
     (case v of
        VRef a \<Rightarrow>
          (case get_list h v of
             Inl e \<Rightarrow> Inl AttributeError
           | Inr xs \<Rightarrow> Inr (h[a := PyList (xs @ [x])]))
      | _ \<Rightarrow> Inl AttributeError)"

text \<open>The truth value of \<open>if v:\<close>.\<close>

definition truth_value :: "heap \<Rightarrow> pyv \<Rightarrow> bool" where
  "truth_value h v =
     (case v of
        VNone \<Rightarrow> False
      | VBool b \<Rightarrow> b
      | VNum r \<Rightarrow> r \<noteq> 0
      | VStr s \<Rightarrow> s \<noteq> []
      | VRef a \<Rightarrow>
          (case deref h v of
             Inr (PyList xs) \<Rightarrow> xs \<noteq> []
           | Inr (PyDict kvs) \<Rightarrow> kvs \<noteq> []
           | Inl e \<Rightarrow> True))"

text \<open>
  An aggregation function receives the reference to the list \<open>eval_samples\<close> and the
  store, and returns a decision record (or raises) and the store it leaves.
\<close>

type_synonym agg_fn_store = "pyv \<Rightarrow> heap \<Rightarrow> (py_error + pyv) \<times> heap"

text \<open>
  The comprehension of lines 22-30: one new dictionary per generation of the slice. Its
  \<open>"scores"\<close> entry is the value of \<open>generation.get("step_rewards", None)\<close>, a
  reference to the list of the input when there is one.
\<close>

fun project_loop ::
  "pyv \<Rightarrow> pyv list \<Rightarrow> pyv list \<Rightarrow> heap \<Rightarrow> (py_error + pyv list) \<times> heap" where
  "project_loop sample [] eval_samples h = (Inr eval_samples, h)"
| "project_loop sample (generation # rest) eval_samples h =
     (case get_item h sample ''dataset'' of
        Inl e \<Rightarrow> (Inl e, h)
      | Inr dataset \<Rightarrow>
     (case get_item h generation ''pred'' of
        Inl e \<Rightarrow> (Inl e, h)
      | Inr pred \<Rightarrow>
     (case get_or_none h generation ''step_rewards'' of
        Inl e \<Rightarrow> (Inl e, h)
      | Inr scores \<Rightarrow>
     (case get_item h generation ''correct'' of
        Inl e \<Rightarrow> (Inl e, h)
      | Inr correct \<Rightarrow>
     (case alloc (PyDict [(''dataset'', dataset), (''ans'', pred), (''scores'', scores),
                          (''correct'', correct)]) h of
        (d, h') \<Rightarrow> project_loop sample rest (eval_samples @ [d]) h')))))"

text \<open>
  Lines 21-32 for the samples that remain. The slice \<open>sample["generation"][:k]\<close> is a
  new list, \<open>eval_samples\<close> is a new list, and \<open>final_results.append\<close> updates the
  list that line 20 created.
\<close>

fun samples_loop ::
  "(string \<Rightarrow> agg_fn_store option) \<Rightarrow> int \<Rightarrow> string \<Rightarrow> pyv \<Rightarrow> pyv list \<Rightarrow> heap
     \<Rightarrow> (py_error + unit) \<times> heap" where
  "samples_loop M k agg_method final_results [] h = (Inr (), h)"
| "samples_loop M k agg_method final_results (sample # rest) h =
     (case get_item h sample ''generation'' of
        Inl e \<Rightarrow> (Inl e, h)
      | Inr g \<Rightarrow>
     (case get_list h g of
        Inl e \<Rightarrow> (Inl e, h)
      | Inr gens \<Rightarrow>
     (case alloc (PyList (py_slice_to k gens)) h of
        (slice, h1) \<Rightarrow>
     (case project_loop sample (py_slice_to k gens) [] h1 of
        (Inl e, h2) \<Rightarrow> (Inl e, h2)
      | (Inr ds, h2) \<Rightarrow>
     (case alloc (PyList ds) h2 of
        (eval_samples, h3) \<Rightarrow>
     (case M agg_method of
        None \<Rightarrow> (Inl KeyError, h3)
      | Some f \<Rightarrow>
     (case f eval_samples h3 of
        (Inl e, h4) \<Rightarrow> (Inl e, h4)
      | (Inr final_result, h4) \<Rightarrow>
     (case list_append final_results final_result h4 of
        Inl e \<Rightarrow> (Inl e, h4)
      | Inr h5 \<Rightarrow> samples_loop M k agg_method final_results rest h5))))))))"

text \<open>
  Lines 36-40 read \<open>result["dataset"]\<close> and \<open>result["correct"]\<close> of every decision
  record; the dataset name is a string.
\<close>

fun read_results :: "heap \<Rightarrow> pyv list \<Rightarrow> py_error + decision list" where
  "read_results h [] = Inr []"
| "read_results h (result # rest) =
     (case get_item h result ''dataset'' of
        Inl e \<Rightarrow> Inl e
      | Inr (VStr dataset) \<Rightarrow>
          (case get_item h result ''correct'' of
             Inl e \<Rightarrow> Inl e
           | Inr correct \<Rightarrow>
               (case read_results h rest of
                  Inl e \<Rightarrow> Inl e
                | Inr frs \<Rightarrow>
                    Inr (\<lparr>fr_dataset = dataset, fr_ans = None,
                          fr_correct = truth_value h correct\<rparr> # frs)))
      | Inr _ \<Rightarrow> Inl TypeError)"

text \<open>
  The whole function. The counters and the list \<open>metrics\<close> are objects that the
  function creates and that nothing else refers to before it returns; they are kept as
  values, computed by \<open>count_loop\<close>, \<open>metrics_loop\<close> and \<open>append_average\<close> as
  above.
\<close>

definition compute_metrics_fn_store ::
  "(string \<Rightarrow> agg_fn_store option) \<Rightarrow> pyv \<Rightarrow> int \<Rightarrow> string \<Rightarrow> heap
     \<Rightarrow> (py_error + metric list) \<times> heap" where
  "compute_metrics_fn_store M eval_results k agg_method h =
     (case alloc (PyList []) h of
        (final_results, h0) \<Rightarrow>
     (case get_list h0 eval_results of
        Inl e \<Rightarrow> (Inl e, h0)
      | Inr samples \<Rightarrow>
     (case samples_loop M k agg_method final_results samples h0 of
        (Inl e, h1) \<Rightarrow> (Inl e, h1)
      | (Inr u, h1) \<Rightarrow>
     (case get_list h1 final_results of
        Inl e \<Rightarrow> (Inl e, h1)
      | Inr results \<Rightarrow>
     (case read_results h1 results of
        Inl e \<Rightarrow> (Inl e, h1)
      | Inr frs \<Rightarrow>
     (case count_loop frs ([], []) of
        (dataset_counts, dataset_correct) \<Rightarrow>
     (case metrics_loop dataset_counts dataset_correct [] of
        Inl e \<Rightarrow> (Inl e, h1)
      | Inr metrics \<Rightarrow> (Inr (append_average metrics), h1))))))))"

text \<open>
  An aggregation function keeps the first \<open>n\<close> objects of the store when, called on a
  store that has them, it leaves them as they are.
\<close>

definition keeps :: "nat \<Rightarrow> agg_fn_store \<Rightarrow> bool" where
  "keeps n f = (\<forall>v h. n \<le> length h \<longrightarrow> take n (snd (f v h)) = take n h)"

text \<open>
  Modelled from the spec: \<open>pass\<close> of \<open>src/eval_utils/vote.py\<close> over the store. The
  first record decides; it is returned as the decision record.
\<close>

definition agg_pass_store :: agg_fn_store where
  "agg_pass_store records h =
     (case get_list h records of
        Inl e \<Rightarrow> (Inl e, h)
      | Inr [] \<Rightarrow> (Inl IndexError, h)
      | Inr (first # rest) \<Rightarrow> (Inr first, h))"

text \<open>
  An aggregation function of another kind, for comparison: it appends a score to the
  \<open>"scores"\<close> list of the first record before it returns that record.
\<close>

definition agg_rescoring :: agg_fn_store where
  "agg_rescoring records h =
     (case get_list h records of
        Inl e \<Rightarrow> (Inl e, h)
      | Inr [] \<Rightarrow> (Inl IndexError, h)
      | Inr (first # rest) \<Rightarrow>
          (case get_item h first ''scores'' of
             Inl e \<Rightarrow> (Inl e, h)
           | Inr scores \<Rightarrow>
               (case list_append scores (VNum 0) h of
                  Inl e \<Rightarrow> (Inr first, h)
                | Inr h' \<Rightarrow> (Inr first, h'))))"

text \<open>
  A store with \<open>eval_results\<close> at address 7: two samples of \<open>college_math\<close>, the
  first with a list of step rewards.
\<close>

definition example_heap :: heap where
  "example_heap =
     [PyList [VNum (1 / 2), VNum (3 / 4)],
      PyDict [(''pred'', VStr ''4''), (''correct'', VBool True), (''step_rewards'', VRef 0)],
      PyList [VRef 1],
      PyDict [(''dataset'', VStr ''college_math''), (''generation'', VRef 2)],
      PyDict [(''pred'', VStr ''5''), (''correct'', VBool False)],
      PyList [VRef 4],
      PyDict [(''dataset'', VStr ''college_math''), (''generation'', VRef 5)],
      PyList [VRef 3, VRef 6]]"

section \<open>Notions used in the statements\<close>

text \<open>The distinct elements of a list in the order of their first occurrence.\<close>

fun first_seen :: "'a list \<Rightarrow> 'a list" where
  "first_seen [] = []"
| "first_seen (x # xs) = x # first_seen (removeAll x xs)"

text \<open>
  The row that lines 44-50 build for one item of \<open>dataset_counts\<close> when the divisor is
  not zero.
\<close>

definition row_of :: "counter \<Rightarrow> string \<times> nat \<Rightarrow> metric" where
  "row_of dcorr p =
     Metric (fst p) (snd p) (dd_get dcorr (fst p))
       (of_nat (dd_get dcorr (fst p)) / of_nat (snd p))"

text \<open>
  Two datasets of different sizes: \<open>B\<close> with three samples, none correct, and \<open>A\<close>
  with two, both correct, interleaved, \<open>B\<close> first.
\<close>

definition two_datasets :: "eval_result list" where
  "two_datasets =
     [\<lparr>er_dataset = ''B'', er_generation = [\<lparr>g_pred = ''1'', g_step_rewards = None, g_correct = False\<rparr>]\<rparr>,
      \<lparr>er_dataset = ''A'', er_generation = [\<lparr>g_pred = ''2'', g_step_rewards = None, g_correct = True\<rparr>]\<rparr>,
      \<lparr>er_dataset = ''B'', er_generation = [\<lparr>g_pred = ''3'', g_step_rewards = None, g_correct = False\<rparr>]\<rparr>,
      \<lparr>er_dataset = ''A'', er_generation = [\<lparr>g_pred = ''4'', g_step_rewards = None, g_correct = True\<rparr>]\<rparr>,
      \<lparr>er_dataset = ''B'', er_generation = [\<lparr>g_pred = ''5'', g_step_rewards = None, g_correct = False\<rparr>]\<rparr>]"

text \<open>
  The scenario of the spec: three samples of \<open>college_math\<close> with correctness flags
  true, false, true, whatever the predictions.
\<close>

definition three_samples :: "string \<Rightarrow> string \<Rightarrow> string \<Rightarrow> eval_result list" where
  "three_samples p1 p2 p3 =
     [\<lparr>er_dataset = ''college_math'', er_generation = [\<lparr>g_pred = p1, g_step_rewards = None, g_correct = True\<rparr>]\<rparr>,
      \<lparr>er_dataset = ''college_math'', er_generation = [\<lparr>g_pred = p2, g_step_rewards = None, g_correct = False\<rparr>]\<rparr>,
      \<lparr>er_dataset = ''college_math'', er_generation = [\<lparr>g_pred = p3, g_step_rewards = None, g_correct = True\<rparr>]\<rparr>]"

text \<open>A number as shown with three decimals.\<close>

definition to_3_decimals :: "rat \<Rightarrow> rat" where
  "to_3_decimals x = of_int (round (x * 1000)) / 1000"

text \<open>
  Two per-generation records of one sample with different answers, the first marked
  correct and the second not.
\<close>

definition record_a :: eval_sample where
  "record_a = \<lparr>es_dataset = ''d'', es_ans = ''1'', es_scores = None, es_correct = True\<rparr>"

definition record_b :: eval_sample where
  "record_b = \<lparr>es_dataset = ''d'', es_ans = ''2'', es_scores = None, es_correct = False\<rparr>"

text \<open>
  A sample is skipped by the generation loop when it has no truthy question field or when
  the generation call made for it raises.
\<close>

definition skipped :: "env \<Rightarrow> nat \<times> sample \<Rightarrow> bool" where
  "skipped env p =
     (case p of (idx, sample) \<Rightarrow>
        \<not> truthy (find_prompt sample) \<or> isl (generate_output env idx (find_prompt sample)))"

text \<open>
  The record of lines 127-133 for a sample that is not skipped, when extraction and the
  ground truth return.
\<close>

definition record_of :: "env \<Rightarrow> nat \<times> sample \<Rightarrow> generation" where
  "record_of env p =
     (case p of (idx, sample) \<Rightarrow>
        let output_text = projr (generate_output env idx (find_prompt sample)) in
        \<lparr>gen_dataset = data_name env, gen_question = find_prompt sample,
         gen_response = output_text,
         gen_pred = projr (extract_and_strip env output_text (data_name env)),
         gen_gt_ans = projr (gt_ans_of env sample), gen_correct = None\<rparr>)"

text \<open>
  The loop body runs to line 135 on the sample: it has a question, and the generation call,
  the extraction and the ground truth all return.
\<close>

definition completes :: "env \<Rightarrow> nat \<times> sample \<Rightarrow> bool" where
  "completes env p =
     (case p of (idx, sample) \<Rightarrow>
        truthy (find_prompt sample) \<and>
        (case generate_output env idx (find_prompt sample) of
           Inl e \<Rightarrow> False
         | Inr output_text \<Rightarrow>
             \<not> isl (extract_and_strip env output_text (data_name env)) \<and>
             \<not> isl (gt_ans_of env sample)))"

text \<open>The number of records in the checkpoint file after a run, if the file exists.\<close>

definition checkpoint_size :: "py_error + loop_state \<Rightarrow> py_error + nat option" where
  "checkpoint_size r = map_sum id (\<lambda>st. map_option length (checkpoint_file st)) r"

text \<open>The entry of \<open>eval_results\<close> that lines 163-166 build for a graded record.\<close>

definition eval_result_of :: "generation \<Rightarrow> bool \<Rightarrow> eval_result" where
  "eval_result_of g c =
     \<lparr>er_dataset = gen_dataset g,
      er_generation = [\<lparr>g_pred = gen_pred g, g_step_rewards = None, g_correct = c\<rparr>]\<rparr>"

text \<open>
  Collaborators for the examples: a generator, an extractor and a parser that always
  return, and a grader that compares strings; and a variant whose generator raises on the
  sample of index 1 and whose grader raises on every prediction but \<open>4\<close>.
\<close>

definition example_env :: env where
  "example_env =
     \<lparr>data_name = ''college_math'',
      generate_output = (\<lambda>idx prompt. Inr ''The answer is 4''),
      extract_and_strip = (\<lambda>text name. Inr ''4''),
      parse_ground_truth = (\<lambda>sample name. Inr [PStr ''2 + 2 = 4'', PStr ''4'']),
      math_equal = (\<lambda>pred gt. Inr (PStr pred = gt))\<rparr>"

definition failing_env :: env where
  "failing_env =
     example_env\<lparr>
       generate_output :=
         (\<lambda>idx prompt. if idx = 1 then Inl (Exception ''CUDA out of memory'')
                       else Inr ''The answer is 4''),
       math_equal :=
         (\<lambda>pred gt. if pred = ''4'' then Inr (PStr pred = gt)
                     else Inl (Exception ''cannot parse''))\<rparr>"

text \<open>A sample with a question, one without any question field, and samples by question.\<close>

definition good_sample :: sample where
  "good_sample = [(''question'', PStr ''What is 2 + 2?''), (''answer'', PStr ''4'')]"

definition malformed_sample :: sample where
  "malformed_sample = [(''id'', PInt 7), (''answer'', PStr ''4'')]"

definition sample_q :: "string \<Rightarrow> sample" where
  "sample_q q = [(''question'', PStr q)]"

text \<open>Two ungraded records; the grader of \<open>failing_env\<close> raises on the first.\<close>

definition two_generations :: "generation list" where
  "two_generations =
     [\<lparr>gen_dataset = ''college_math'', gen_question = PStr ''Integrate x'',
       gen_response = ''x^2/2 +'', gen_pred = ''x^2/2 +'', gen_gt_ans = PStr ''x^2/2'',
       gen_correct = None\<rparr>,
      \<lparr>gen_dataset = ''college_math'', gen_question = PStr ''What is 2 + 2?'',
       gen_response = ''The answer is 4'', gen_pred = ''4'', gen_gt_ans = PStr ''4'',
       gen_correct = None\<rparr>]"

text \<open>
  What a store holds, read as values of the first model: a reference that leads to a list of
  scores, a generation record, a sample, the list \<open>eval_results\<close>, a projected record,
  the list \<open>eval_samples\<close>, and a decision record with its two keys.
\<close>

definition is_scores :: "heap \<Rightarrow> pyv \<Rightarrow> rat list option \<Rightarrow> bool" where
  "is_scores h v scores =
     (case scores of None \<Rightarrow> v = VNone | Some rs \<Rightarrow> get_list h v = Inr (map VNum rs))"

definition is_generation :: "heap \<Rightarrow> pyv \<Rightarrow> generation_rec \<Rightarrow> bool" where
  "is_generation h v g =
     (get_item h v ''pred'' = Inr (VStr (g_pred g)) \<and>
      get_item h v ''correct'' = Inr (VBool (g_correct g)) \<and>
      (case get_or_none h v ''step_rewards'' of
         Inr s \<Rightarrow> is_scores h s (g_step_rewards g)
       | Inl e \<Rightarrow> False))"

definition is_sample :: "heap \<Rightarrow> pyv \<Rightarrow> eval_result \<Rightarrow> bool" where
  "is_sample h v sample =
     (get_item h v ''dataset'' = Inr (VStr (er_dataset sample)) \<and>
      (case get_item h v ''generation'' of
         Inr g \<Rightarrow>
           (case get_list h g of
              Inr gens \<Rightarrow> list_all2 (is_generation h) gens (er_generation sample)
            | Inl e \<Rightarrow> False)
       | Inl e \<Rightarrow> False))"

definition is_eval_results :: "heap \<Rightarrow> pyv \<Rightarrow> eval_result list \<Rightarrow> bool" where
  "is_eval_results h v eval_results =
     (case get_list h v of
        Inr samples \<Rightarrow> list_all2 (is_sample h) samples eval_results
      | Inl e \<Rightarrow> False)"

definition is_eval_sample :: "heap \<Rightarrow> pyv \<Rightarrow> eval_sample \<Rightarrow> bool" where
  "is_eval_sample h v r =
     (get_item h v ''dataset'' = Inr (VStr (es_dataset r)) \<and>
      get_item h v ''ans'' = Inr (VStr (es_ans r)) \<and>
      get_item h v ''correct'' = Inr (VBool (es_correct r)) \<and>
      (case get_item h v ''scores'' of
         Inr s \<Rightarrow> is_scores h s (es_scores r)
       | Inl e \<Rightarrow> False))"

definition is_eval_samples :: "heap \<Rightarrow> pyv \<Rightarrow> eval_sample list \<Rightarrow> bool" where
  "is_eval_samples h v records =
     (case get_list h v of
        Inr refs \<Rightarrow> list_all2 (is_eval_sample h) refs records
      | Inl e \<Rightarrow> False)"

definition is_decision :: "heap \<Rightarrow> pyv \<Rightarrow> decision \<Rightarrow> bool" where
  "is_decision h v d =
     (get_item h v ''dataset'' = Inr (VStr (fr_dataset d)) \<and>
      get_item h v ''correct'' = Inr (VBool (fr_correct d)))"

text \<open>
  An aggregation function over the store refines one over values when, on every store that
  holds the records, it leaves all objects of the store as they are and raises or decides
  as the function over values does on these records.
\<close>

definition refines :: "agg_fn_store \<Rightarrow> agg_fn \<Rightarrow> bool" where
  "refines fs f =
     (\<forall>h v records. is_eval_samples h v records \<longrightarrow>
        take (length h) (snd (fs v h)) = h \<and>
        (case f records of
           Inl e \<Rightarrow> fst (fs v h) = Inl e
         | Inr d \<Rightarrow>
             (case fst (fs v h) of
                Inr r \<Rightarrow> is_decision (snd (fs v h)) r d
              | Inl e \<Rightarrow> False)))"

text \<open>The store \<open>h'\<close> begins with the objects of \<open>h\<close>, unchanged.\<close>

definition prefix_of :: "heap \<Rightarrow> heap \<Rightarrow> bool" where
  "prefix_of h h' = (take (length h) h' = h)"

text \<open>The record that lines 23-28 build, as \<open>eval_samples_of\<close> has it.\<close>

definition project :: "string \<Rightarrow> generation_rec \<Rightarrow> eval_sample" where
  "project dataset generation =
     \<lparr>es_dataset = dataset, es_ans = g_pred generation,
      es_scores = g_step_rewards generation, es_correct = g_correct generation\<rparr>"

text \<open>The list \<open>final_results\<close> at address \<open>n\<close> holds the decision records \<open>ds\<close>.\<close>

definition results_at :: "nat \<Rightarrow> heap \<Rightarrow> decision list \<Rightarrow> bool" where
  "results_at n h ds =
     (n < length h \<and>
      (case h ! n of
         PyList frefs \<Rightarrow> list_all2 (is_decision h) frefs ds
       | PyDict kvs \<Rightarrow> False))"

text \<open>The content of \<open>example_heap\<close> at address 7.\<close>

definition example_results :: "eval_result list" where
  "example_results =
     [\<lparr>er_dataset = ''college_math'',
       er_generation = [\<lparr>g_pred = ''4'', g_step_rewards = Some [1 / 2, 3 / 4], g_correct = True\<rparr>]\<rparr>,
      \<lparr>er_dataset = ''college_math'',
       er_generation = [\<lparr>g_pred = ''5'', g_step_rewards = None, g_correct = False\<rparr>]\<rparr>]"

section \<open>Properties of the counters and of the three loops\<close>


lemma dd_get_incr: "dd_get (dd_incr d k) k' = (if k' = k then dd_get d k + 1 else dd_get d k')"
  by (induction d) auto

lemma keys_dd_incr: "map fst (dd_incr d k) = (if k \<in> fst ` set d then map fst d else map fst d @ [k])"
  by (induction d) (auto simp: rev_image_eqI)

lemma dd_incr_pos: "\<forall>p \<in> set d. 0 < snd p \<Longrightarrow> \<forall>p \<in> set (dd_incr d k). 0 < snd p"
  by (induction d k rule: dd_incr.induct) auto

lemma keyset_dd_incr: "fst ` set (dd_incr d k) = insert k (fst ` set d)"
proof -
  have "set (map fst (dd_incr d k)) = insert k (set (map fst d))"
    unfolding keys_dd_incr by auto
  then show ?thesis by simp
qed


lemma dd_get_val: "distinct (map fst d) \<Longrightarrow> (k, v) \<in> set d \<Longrightarrow> dd_get d k = v"
  by (induction d) (auto simp: rev_image_eqI)

lemma distinct_dd_incr: "distinct (map fst d) \<Longrightarrow> distinct (map fst (dd_incr d k))"
  by (simp add: keys_dd_incr)

lemma final_results_loop_acc:
  "final_results_loop M k a rs acc = Inr frs \<Longrightarrow> \<exists>new. frs = acc @ new \<and> length new = length rs"
proof (induction rs arbitrary: acc)
  case Nil then show ?case by simp
next
  case (Cons s rs)
  then show ?case by (fastforce split: option.splits sum.splits)
qed

lemma count_loop_keys:
  "map fst (fst (count_loop frs (dc, dcorr))) =
     map fst dc @ first_seen (filter (\<lambda>x. x \<notin> fst ` set dc) (map fr_dataset frs))"
proof (induction frs arbitrary: dc dcorr)
  case Nil then show ?case by simp
next
  case (Cons r rs)
  let ?d = "fr_dataset r"
  show ?case
  proof (cases "?d \<in> fst ` set dc")
    case True
    then have "insert ?d (fst ` set dc) = fst ` set dc" by auto
    with True show ?thesis
      by (simp add: Cons.IH keys_dd_incr keyset_dd_incr)
  next
    case False
    have "removeAll ?d (filter (\<lambda>x. x \<notin> fst ` set dc) (map fr_dataset rs))
          = filter (\<lambda>x. x \<notin> insert ?d (fst ` set dc)) (map fr_dataset rs)"
      by (auto simp: removeAll_filter_not_eq intro: filter_cong)
    with False show ?thesis
      by (simp add: Cons.IH keys_dd_incr keyset_dd_incr)
  qed
qed

lemma count_loop_counts:
  "dd_get (fst (count_loop frs (dc, dcorr))) d =
     dd_get dc d + length (filter (\<lambda>x. fr_dataset x = d) frs)"
  by (induction frs arbitrary: dc dcorr) (auto simp: dd_get_incr)

lemma count_loop_correct:
  "dd_get (snd (count_loop frs (dc, dcorr))) d =
     dd_get dcorr d + length (filter (\<lambda>x. fr_dataset x = d \<and> fr_correct x) frs)"
  by (induction frs arbitrary: dc dcorr) (auto simp: dd_get_incr)

lemma count_loop_distinct:
  "distinct (map fst dc) \<Longrightarrow> distinct (map fst (fst (count_loop frs (dc, dcorr))))"
  by (induction frs arbitrary: dc dcorr) (auto simp: distinct_dd_incr)

lemma count_loop_pos:
  "\<forall>p \<in> set dc. 0 < snd p \<Longrightarrow> \<forall>p \<in> set (fst (count_loop frs (dc, dcorr))). 0 < snd p"
proof (induction frs arbitrary: dc dcorr)
  case Nil then show ?case by simp
next
  case (Cons r rs)
  from Cons.prems have "\<forall>p \<in> set (dd_incr dc (fr_dataset r)). 0 < snd p" by (rule dd_incr_pos)
  then show ?case by (simp add: Cons.IH)
qed

lemma metrics_loop_rows:
  "\<forall>p \<in> set dc. 0 < snd p \<Longrightarrow> metrics_loop dc dcorr acc = Inr (acc @ map (row_of dcorr) dc)"
  by (induction dc arbitrary: acc) (auto simp: py_truediv_def row_of_def Let_def)

lemma compute_metrics_fn_Inr:
  assumes "compute_metrics_fn M rs k a = Inr out"
  obtains frs where "final_results_loop M k a rs [] = Inr frs"
    and "out = append_average (map (row_of (snd (count_loop frs ([], [])))) (fst (count_loop frs ([], []))))"
proof -
  from assms obtain frs where f: "final_results_loop M k a rs [] = Inr frs"
    by (auto simp: compute_metrics_fn_def split: sum.splits)
  have pos: "\<forall>p \<in> set (fst (count_loop frs ([], []))). 0 < snd p"
    by (rule count_loop_pos) simp
  obtain dc dcorr where c: "count_loop frs ([], []) = (dc, dcorr)" by (cases "count_loop frs ([], [])")
  with pos have "metrics_loop dc dcorr [] = Inr (map (row_of dcorr) dc)"
    using metrics_loop_rows[of dc dcorr "[]"] by simp
  with assms f c have "out = append_average (map (row_of dcorr) dc)"
    by (simp add: compute_metrics_fn_def)
  with f c that show thesis by simp
qed


lemma final_results_loop_length:
  "final_results_loop M k a rs acc = Inr frs \<Longrightarrow> length frs = length acc + length rs"
  using final_results_loop_acc by fastforce

lemma append_average_rows:
  "append_average rows = rows @ [Average (if rows = [] then 0
      else sum_list (map m_accuracy rows) / of_nat (length rows))]"
  by (simp add: append_average_def np_mean_def)

lemma is_Metric_row_of: "is_Metric (row_of dcorr p)"
  by (simp add: row_of_def)

lemma two_datasets_pass:
  "compute_metrics_fn AGG_FN_MAP two_datasets 1 ''pass'' =
     Inr [Metric ''B'' 3 0 0, Metric ''A'' 2 2 1, Average (1 / 2)]"
  by (simp add: compute_metrics_fn_def two_datasets_def AGG_FN_MAP_def agg_pass_def
      eval_samples_of_def py_slice_to_def py_truediv_def append_average_def np_mean_def)

lemma final_results_loop_datasets:
  assumes "final_results_loop M k a rs acc = Inr frs"
    and "\<forall>f s r. M a = Some f \<longrightarrow> s \<in> set rs \<longrightarrow> f (eval_samples_of k s) = Inr r
           \<longrightarrow> fr_dataset r = er_dataset s"
  shows "map fr_dataset frs = map fr_dataset acc @ map er_dataset rs"
  using assms
proof (induction rs arbitrary: acc)
  case Nil then show ?case by simp
next
  case (Cons s rs)
  from Cons.prems(1) obtain f r where f: "M a = Some f" and r: "f (eval_samples_of k s) = Inr r"
    and rest: "final_results_loop M k a rs (acc @ [r]) = Inr frs"
    by (auto split: option.splits sum.splits)
  from Cons.prems(2) f r have d: "fr_dataset r = er_dataset s" by simp
  from Cons.prems(2) have "\<forall>f s r. M a = Some f \<longrightarrow> s \<in> set rs \<longrightarrow> f (eval_samples_of k s) = Inr r
           \<longrightarrow> fr_dataset r = er_dataset s" by simp
  from Cons.IH[OF rest this] d show ?case by simp
qed

lemma compute_metrics_fn_Inl:
  assumes "compute_metrics_fn M rs k a = Inl e"
  shows "final_results_loop M k a rs [] = Inl e"
proof (cases "final_results_loop M k a rs []")
  case (Inl e')
  with assms show ?thesis by (simp add: compute_metrics_fn_def)
next
  case (Inr frs)
  have pos: "\<forall>p \<in> set (fst (count_loop frs ([], []))). 0 < snd p"
    by (rule count_loop_pos) simp
  obtain dc dcorr where c: "count_loop frs ([], []) = (dc, dcorr)" by (cases "count_loop frs ([], [])")
  with pos have "metrics_loop dc dcorr [] = Inr (map (row_of dcorr) dc)"
    using metrics_loop_rows[of dc dcorr "[]"] by simp
  with assms Inr c show ?thesis by (simp add: compute_metrics_fn_def)
qed

lemma butlast_append_average: "butlast (append_average rows) = rows"
  by (simp add: append_average_def)

lemma agg_pass_dataset:
  "agg_pass (eval_samples_of k s) = Inr r \<Longrightarrow> fr_dataset r = er_dataset s"
  by (auto simp: agg_pass_def eval_samples_of_def split: list.splits)

lemma three_samples_pass:
  "compute_metrics_fn AGG_FN_MAP (three_samples p1 p2 p3) 1 ''pass'' =
     Inr [Metric ''college_math'' 3 2 (2 / 3), Average (2 / 3)]"
  by (simp add: compute_metrics_fn_def three_samples_def AGG_FN_MAP_def agg_pass_def
      eval_samples_of_def py_slice_to_def py_truediv_def append_average_def np_mean_def)

lemma final_results_loop_pass:
  "\<forall>s \<in> set rs. er_generation s \<noteq> [] \<Longrightarrow>
     final_results_loop AGG_FN_MAP 1 ''pass'' rs acc =
       Inr (acc @ map (\<lambda>s. \<lparr>fr_dataset = er_dataset s,
                         fr_ans = Some (g_pred (hd (er_generation s))),
                         fr_correct = g_correct (hd (er_generation s))\<rparr>) rs)"
proof (induction rs arbitrary: acc)
  case Nil then show ?case by simp
next
  case (Cons s rs)
  then obtain g gs where g: "er_generation s = g # gs" by (cases "er_generation s") auto
  have "agg_pass (eval_samples_of 1 s) = Inr \<lparr>fr_dataset = er_dataset s,
                         fr_ans = Some (g_pred g), fr_correct = g_correct g\<rparr>"
    by (simp add: agg_pass_def eval_samples_of_def py_slice_to_def g)
  moreover have "AGG_FN_MAP ''pass'' = Some agg_pass" by (simp add: AGG_FN_MAP_def)
  ultimately show ?case using Cons by (simp add: g)
qed


lemma two_datasets_unknown_method:
  "compute_metrics_fn AGG_FN_MAP two_datasets 1 ''best_of_n'' = Inl KeyError"
  by (simp add: compute_metrics_fn_def two_datasets_def AGG_FN_MAP_def)

section \<open>The average row\<close>

text \<open>
  C1. Whenever \<open>compute_metrics_fn\<close> returns, its result is the per-dataset rows followed
  by the \<open>Average\<close> entry, and that entry is the sum of the rows' accuracies divided by
  the number of rows: every dataset has the same weight, whatever its number of samples.
  With no per-dataset row the average is 0, and that happens exactly when
  \<open>eval_results\<close> is empty.
\<close>

theorem average_is_unweighted_mean:
  assumes "compute_metrics_fn M rs k a = Inr out"
  shows "\<exists>rows. out = rows @ [Average (if rows = [] then 0
                       else sum_list (map m_accuracy rows) / of_nat (length rows))]
           \<and> (\<forall>r \<in> set rows. is_Metric r) \<and> (rows = [] \<longleftrightarrow> rs = [])"
proof -
  from assms obtain frs where f: "final_results_loop M k a rs [] = Inr frs"
    and out: "out = append_average (map (row_of (snd (count_loop frs ([], []))))
                 (fst (count_loop frs ([], []))))"
    by (rule compute_metrics_fn_Inr)
  let ?rows = "map (row_of (snd (count_loop frs ([], [])))) (fst (count_loop frs ([], [])))"
  have len: "length frs = length rs" using final_results_loop_length[OF f] by simp
  have "map fst (fst (count_loop frs ([], []))) = first_seen (map fr_dataset frs)"
    using count_loop_keys[of frs "[]" "[]"] by simp
  then have "fst (count_loop frs ([], [])) = [] \<longleftrightarrow> frs = []"
    by (cases frs) (auto simp: map_eq_Cons_conv)
  with len have e: "?rows = [] \<longleftrightarrow> rs = []" by auto
  have m: "\<forall>r \<in> set ?rows. is_Metric r" by (auto simp: is_Metric_row_of)
  from out e m show ?thesis unfolding append_average_rows by blast
qed

text \<open>
  On \<open>two_datasets\<close> the accuracies are 1 and 0 and the average is 1/2, not the
  sample-weighted 2/5.
\<close>

theorem average_is_unweighted_mean_witness:
  "\<exists>rows. [Metric ''B'' 3 0 0, Metric ''A'' 2 2 1, Average (1 / 2)] =
            rows @ [Average (if rows = [] then 0
                       else sum_list (map m_accuracy rows) / of_nat (length rows))]
         \<and> (\<forall>r \<in> set rows. is_Metric r) \<and> (rows = [] \<longleftrightarrow> two_datasets = [])"
  using average_is_unweighted_mean [OF two_datasets_pass] .

section \<open>The per-dataset rows\<close>

text \<open>
  C2. When \<open>compute_metrics_fn\<close> returns, every per-dataset row (every entry but the
  last) has a positive total, which is the number of decision records of its dataset, a
  correct count, which is the number of those marked correct, and accuracy exactly
  correct/total. A dataset with total 0 has no row, and the division never raises: when
  \<open>compute_metrics_fn\<close> raises, the exception is the one the aggregation loop of lines
  21-32 raised.
\<close>

theorem accuracy_is_correct_over_total:
  "(\<forall>out. compute_metrics_fn M rs k a = Inr out \<longrightarrow>
      (\<exists>frs. final_results_loop M k a rs [] = Inr frs \<and>
         (\<forall>r \<in> set (butlast out).
            is_Metric r \<and> 0 < m_total r \<and>
            m_accuracy r = of_nat (m_correct r) / of_nat (m_total r) \<and>
            m_total r = length (filter (\<lambda>x. fr_dataset x = m_dataset r) frs) \<and>
            m_correct r = length (filter (\<lambda>x. fr_dataset x = m_dataset r \<and> fr_correct x) frs))))
   \<and> (\<forall>e. compute_metrics_fn M rs k a = Inl e \<longrightarrow> final_results_loop M k a rs [] = Inl e)"
proof (intro conjI allI impI)
  fix out assume "compute_metrics_fn M rs k a = Inr out"
  then obtain frs where f: "final_results_loop M k a rs [] = Inr frs"
    and out: "out = append_average (map (row_of (snd (count_loop frs ([], []))))
                 (fst (count_loop frs ([], []))))"
    by (rule compute_metrics_fn_Inr)
  let ?dc = "fst (count_loop frs ([], []))" and ?dcorr = "snd (count_loop frs ([], []))"
  have pos: "\<forall>p \<in> set ?dc. 0 < snd p" by (rule count_loop_pos) simp
  have dist: "distinct (map fst ?dc)" by (rule count_loop_distinct) simp
  have "\<forall>r \<in> set (map (row_of ?dcorr) ?dc).
            is_Metric r \<and> 0 < m_total r \<and>
            m_accuracy r = of_nat (m_correct r) / of_nat (m_total r) \<and>
            m_total r = length (filter (\<lambda>x. fr_dataset x = m_dataset r) frs) \<and>
            m_correct r = length (filter (\<lambda>x. fr_dataset x = m_dataset r \<and> fr_correct x) frs)"
  proof
    fix r assume "r \<in> set (map (row_of ?dcorr) ?dc)"
    then obtain p where p: "p \<in> set ?dc" and r: "r = row_of ?dcorr p" by auto
    from p have "(fst p, snd p) \<in> set ?dc" by simp
    from dd_get_val[OF dist this] have "snd p = length (filter (\<lambda>x. fr_dataset x = fst p) frs)"
      using count_loop_counts[of frs "[]" "[]" "fst p"] by simp
    moreover have "dd_get ?dcorr (fst p) = length (filter (\<lambda>x. fr_dataset x = fst p \<and> fr_correct x) frs)"
      using count_loop_correct[of frs "[]" "[]" "fst p"] by simp
    moreover from pos p have "0 < snd p" by blast
    ultimately show "is_Metric r \<and> 0 < m_total r \<and>
            m_accuracy r = of_nat (m_correct r) / of_nat (m_total r) \<and>
            m_total r = length (filter (\<lambda>x. fr_dataset x = m_dataset r) frs) \<and>
            m_correct r = length (filter (\<lambda>x. fr_dataset x = m_dataset r \<and> fr_correct x) frs)"
      by (simp add: r row_of_def)
  qed
  with f out show "\<exists>frs. final_results_loop M k a rs [] = Inr frs \<and>
         (\<forall>r \<in> set (butlast out).
            is_Metric r \<and> 0 < m_total r \<and>
            m_accuracy r = of_nat (m_correct r) / of_nat (m_total r) \<and>
            m_total r = length (filter (\<lambda>x. fr_dataset x = m_dataset r) frs) \<and>
            m_correct r = length (filter (\<lambda>x. fr_dataset x = m_dataset r \<and> fr_correct x) frs))"
    by (simp only: butlast_append_average) blast
next
  fix e assume "compute_metrics_fn M rs k a = Inl e"
  then show "final_results_loop M k a rs [] = Inl e" by (rule compute_metrics_fn_Inl)
qed

text \<open>
  On \<open>two_datasets\<close> with \<open>pass\<close> the rows count 3 and 2 records; with a method
  that \<open>AGG_FN_MAP\<close> does not have, the \<open>KeyError\<close> is that of the aggregation loop.
\<close>

theorem accuracy_is_correct_over_total_witness:
  "(\<exists>frs. final_results_loop AGG_FN_MAP 1 ''pass'' two_datasets [] = Inr frs \<and>
      3 = length (filter (\<lambda>x. fr_dataset x = ''B'') frs) \<and>
      0 = length (filter (\<lambda>x. fr_dataset x = ''B'' \<and> fr_correct x) frs) \<and>
      2 = length (filter (\<lambda>x. fr_dataset x = ''A'') frs) \<and>
      2 = length (filter (\<lambda>x. fr_dataset x = ''A'' \<and> fr_correct x) frs))
   \<and> final_results_loop AGG_FN_MAP 1 ''best_of_n'' two_datasets [] = Inl KeyError"
  using accuracy_is_correct_over_total [of AGG_FN_MAP two_datasets 1 "''pass''"]
    accuracy_is_correct_over_total [of AGG_FN_MAP two_datasets 1 "''best_of_n''"]
    two_datasets_pass two_datasets_unknown_method
  by auto

text \<open>
  C3. When \<open>compute_metrics_fn\<close> returns and the aggregation function gives every
  decision record the dataset name of its sample, the result is the per-dataset rows, one
  per dataset name in the order in which the names first occur in \<open>eval_results\<close>,
  followed by exactly one \<open>Average\<close> entry. The result is a function of the arguments:
  the order of the rows is that of the input, not of a hash.
\<close>

theorem rows_in_first_seen_order:
  assumes "compute_metrics_fn M rs k a = Inr out"
    and "\<forall>f s r. M a = Some f \<longrightarrow> s \<in> set rs \<longrightarrow> f (eval_samples_of k s) = Inr r
           \<longrightarrow> fr_dataset r = er_dataset s"
  shows "\<exists>rows avg. out = rows @ [Average avg] \<and> (\<forall>r \<in> set rows. is_Metric r)
           \<and> map m_dataset rows = first_seen (map er_dataset rs)"
proof -
  from assms(1) obtain frs where f: "final_results_loop M k a rs [] = Inr frs"
    and out: "out = append_average (map (row_of (snd (count_loop frs ([], []))))
                 (fst (count_loop frs ([], []))))"
    by (rule compute_metrics_fn_Inr)
  let ?dc = "fst (count_loop frs ([], []))" and ?dcorr = "snd (count_loop frs ([], []))"
  let ?rows = "map (row_of ?dcorr) ?dc"
  have "map fr_dataset frs = map er_dataset rs"
    using final_results_loop_datasets[OF f assms(2)] by simp
  moreover have "map fst ?dc = first_seen (map fr_dataset frs)"
    using count_loop_keys[of frs "[]" "[]"] by simp
  moreover have "map m_dataset ?rows = map fst ?dc"
    by (simp add: row_of_def comp_def)
  ultimately have o: "map m_dataset ?rows = first_seen (map er_dataset rs)" by simp
  have m: "\<forall>r \<in> set ?rows. is_Metric r" by (auto simp: is_Metric_row_of)
  from out o m show ?thesis unfolding append_average_rows by blast
qed

text \<open>In \<open>two_datasets\<close> the name \<open>B\<close> occurs first, so its row comes first.\<close>

theorem rows_in_first_seen_order_witness:
  "map m_dataset [Metric ''B'' 3 0 0, Metric ''A'' 2 2 1] = first_seen (map er_dataset two_datasets)
   \<and> first_seen (map er_dataset two_datasets) = [''B'', ''A'']"
proof -
  have h: "\<forall>f s r. AGG_FN_MAP ''pass'' = Some f \<longrightarrow> s \<in> set two_datasets \<longrightarrow>
             f (eval_samples_of 1 s) = Inr r \<longrightarrow> fr_dataset r = er_dataset s"
    by (auto simp: AGG_FN_MAP_def dest: agg_pass_dataset)
  from rows_in_first_seen_order [OF two_datasets_pass h]
  have "map m_dataset [Metric ''B'' 3 0 0, Metric ''A'' 2 2 1] = first_seen (map er_dataset two_datasets)"
    by auto
  then show ?thesis by (simp add: two_datasets_def)
qed

section \<open>Aggregation with \<open>pass\<close> and k = 1\<close>

text \<open>
  C4. With k = 1 and the method \<open>pass\<close>, the decision record of every sample carries
  the correctness flag of the sample's first generation record (on samples that have
  one). For three samples of \<open>college_math\<close> with flags true, false, true the result is
  the row of \<open>college_math\<close> with accuracy 2/3 and the average 2/3, which is 0.667 to
  three decimals.
\<close>

theorem pass_at_1_reproduces_flag:
  "((\<forall>s \<in> set rs. er_generation s \<noteq> []) \<longrightarrow>
      final_results_loop AGG_FN_MAP 1 ''pass'' rs [] =
        Inr (map (\<lambda>s. \<lparr>fr_dataset = er_dataset s,
                         fr_ans = Some (g_pred (hd (er_generation s))),
                         fr_correct = g_correct (hd (er_generation s))\<rparr>) rs))
   \<and> compute_metrics_fn AGG_FN_MAP (three_samples p1 p2 p3) 1 ''pass'' =
        Inr [Metric ''college_math'' 3 2 (2 / 3), Average (2 / 3)]
   \<and> to_3_decimals (2 / 3) = 667 / 1000"
proof (intro conjI impI)
  assume "\<forall>s \<in> set rs. er_generation s \<noteq> []"
  from final_results_loop_pass [OF this, of "[]"]
  show "final_results_loop AGG_FN_MAP 1 ''pass'' rs [] =
        Inr (map (\<lambda>s. \<lparr>fr_dataset = er_dataset s,
                         fr_ans = Some (g_pred (hd (er_generation s))),
                         fr_correct = g_correct (hd (er_generation s))\<rparr>) rs)"
    by simp
next
  show "compute_metrics_fn AGG_FN_MAP (three_samples p1 p2 p3) 1 ''pass'' =
        Inr [Metric ''college_math'' 3 2 (2 / 3), Average (2 / 3)]"
    by (rule three_samples_pass)
next
  have "round (2 / 3 * 1000 :: rat) = 667"
    by (rule round_unique') simp
  then show "to_3_decimals (2 / 3) = 667 / 1000"
    by (simp add: to_3_decimals_def)
qed

theorem pass_at_1_reproduces_flag_witness:
  "final_results_loop AGG_FN_MAP 1 ''pass'' (three_samples ''7'' ''8'' ''9'') [] =
     Inr [\<lparr>fr_dataset = ''college_math'', fr_ans = Some ''7'', fr_correct = True\<rparr>,
          \<lparr>fr_dataset = ''college_math'', fr_ans = Some ''8'', fr_correct = False\<rparr>,
          \<lparr>fr_dataset = ''college_math'', fr_ans = Some ''9'', fr_correct = True\<rparr>]"
  using pass_at_1_reproduces_flag [of "three_samples ''7'' ''8'' ''9''" "''7''" "''8''" "''9''"]
  by (simp add: three_samples_def)

section \<open>Aggregation with \<open>majority_vote\<close>\<close>

text \<open>
  The scan returns a record of the list whose group is of maximal size, and every record
  before it has a strictly smaller group.
\<close>

lemma modal_rep_mem: "modal_rep R best rest \<in> set (best # rest)"
  by (induction rest arbitrary: best) (auto split: if_splits)

lemma modal_rep_ge_best:
  "vote_count R (es_ans best) \<le> vote_count R (es_ans (modal_rep R best rest))"
proof (induction rest arbitrary: best)
  case Nil then show ?case by simp
next
  case (Cons r rest)
  show ?case using Cons[of r] Cons[of best] by (auto split: if_splits)
qed

lemma modal_rep_max:
  "x \<in> set (best # rest) \<Longrightarrow>
     vote_count R (es_ans x) \<le> vote_count R (es_ans (modal_rep R best rest))"
proof (induction rest arbitrary: best)
  case Nil then show ?case by simp
next
  case (Cons r rest)
  let ?b = "if vote_count R (es_ans best) < vote_count R (es_ans r) then r else best"
  from Cons.prems consider "x = best" | "x = r" | "x \<in> set rest" by auto
  then show ?case
  proof cases
    case 1
    have "vote_count R (es_ans best) \<le> vote_count R (es_ans ?b)" by simp
    also have "\<dots> \<le> vote_count R (es_ans (modal_rep R ?b rest))" by (rule modal_rep_ge_best)
    finally show ?thesis using 1 by simp
  next
    case 2
    have "vote_count R (es_ans r) \<le> vote_count R (es_ans ?b)" by simp
    also have "\<dots> \<le> vote_count R (es_ans (modal_rep R ?b rest))" by (rule modal_rep_ge_best)
    finally show ?thesis using 2 by simp
  next
    case 3
    then have "x \<in> set (?b # rest)" by simp
    from Cons.IH[OF this] show ?thesis by simp
  qed
qed

lemma modal_rep_earliest:
  "\<exists>i \<le> length rest. modal_rep R best rest = (best # rest) ! i \<and>
      (\<forall>j < i. vote_count R (es_ans ((best # rest) ! j)) < vote_count R (es_ans ((best # rest) ! i)))"
proof (induction rest arbitrary: best)
  case Nil then show ?case by simp
next
  case (Cons r rest)
  let ?c = "\<lambda>x. vote_count R (es_ans x)"
  let ?b = "if ?c best < ?c r then r else best"
  from Cons[of ?b] obtain i where i: "i \<le> length rest" "modal_rep R ?b rest = (?b # rest) ! i"
     "\<forall>j < i. ?c ((?b # rest) ! j) < ?c ((?b # rest) ! i)" by blast
  show ?case
  proof (cases "?c best < ?c r")
    case True
    then have b: "?b = r" by simp
    have "modal_rep R best (r # rest) = (best # r # rest) ! (Suc i)" using i(2) b by simp
    moreover have "\<forall>j < Suc i. ?c ((best # r # rest) ! j) < ?c ((best # r # rest) ! Suc i)"
    proof (intro allI impI)
      fix j assume j: "j < Suc i"
      show "?c ((best # r # rest) ! j) < ?c ((best # r # rest) ! Suc i)"
      proof (cases j)
        case 0
        have "?c r \<le> ?c (modal_rep R r rest)" by (rule modal_rep_ge_best)
        with True i(2) b 0 show ?thesis by simp
      next
        case (Suc j')
        with j have "j' < i" by simp
        with i(3) b have "?c ((r # rest) ! j') < ?c ((r # rest) ! i)" by simp
        with Suc show ?thesis by simp
      qed
    qed
    ultimately show ?thesis using i(1) by (intro exI[of _ "Suc i"]) simp
  next
    case False
    then have b: "?b = best" by simp
    show ?thesis
    proof (cases i)
      case 0
      with i(2) b have "modal_rep R best (r # rest) = (best # r # rest) ! 0" by simp
      then show ?thesis by (intro exI[of _ 0]) simp
    next
      case (Suc i')
      have m: "modal_rep R best (r # rest) = (best # r # rest) ! (Suc (Suc i'))"
        using i(2) b Suc by simp
      have "\<forall>j < Suc (Suc i'). ?c ((best # r # rest) ! j) < ?c ((best # r # rest) ! Suc (Suc i'))"
      proof (intro allI impI)
        fix j assume j: "j < Suc (Suc i')"
        from i(3) b Suc have lt: "\<forall>j < Suc i'. ?c ((best # rest) ! j) < ?c (rest ! i')" by simp
        show "?c ((best # r # rest) ! j) < ?c ((best # r # rest) ! Suc (Suc i'))"
        proof (cases j)
          case 0
          with lt show ?thesis by auto
        next
          case (Suc j')
          show ?thesis
          proof (cases j')
            case 0
            from lt have "?c best < ?c (rest ! i')" by auto
            with False Suc 0 show ?thesis by simp
          next
            case (Suc j'')
            with j \<open>j = Suc j'\<close> have "Suc j'' < Suc i'" by simp
            with lt have "?c ((best # rest) ! Suc j'') < ?c (rest ! i')" by blast
            with Suc \<open>j = Suc j'\<close> show ?thesis by simp
          qed
        qed
      qed
      with m i(1) Suc show ?thesis by (intro exI[of _ "Suc (Suc i')"]) simp
    qed
  qed
qed

lemma vote_count_mset: "mset xs = mset ys \<Longrightarrow> vote_count xs a = vote_count ys a"
proof -
  assume "mset xs = mset ys"
  then have "mset (filter (\<lambda>r. es_ans r = a) xs) = mset (filter (\<lambda>r. es_ans r = a) ys)"
    by simp
  then have "length (filter (\<lambda>r. es_ans r = a) xs) = length (filter (\<lambda>r. es_ans r = a) ys)"
    by (rule mset_eq_length)
  then show ?thesis by (simp add: vote_count_def)
qed

lemma vote_count_pos: "0 < vote_count xs a \<Longrightarrow> \<exists>r \<in> set xs. es_ans r = a"
  by (auto simp: vote_count_def filter_empty_conv)

lemma modal_rep_unique_mode:
  assumes u: "\<forall>r \<in> set (x # rest). es_ans r \<noteq> a \<longrightarrow>
                vote_count (x # rest) (es_ans r) < vote_count (x # rest) a"
  shows "es_ans (modal_rep (x # rest) x rest) = a"
proof (rule ccontr)
  let ?xs = "x # rest" and ?m = "modal_rep (x # rest) x rest"
  assume n: "es_ans ?m \<noteq> a"
  have m: "?m \<in> set ?xs" by (rule modal_rep_mem)
  with u n have lt: "vote_count ?xs (es_ans ?m) < vote_count ?xs a" by blast
  then have "0 < vote_count ?xs a" by simp
  then obtain r where r: "r \<in> set ?xs" "es_ans r = a" using vote_count_pos by blast
  from modal_rep_max[OF r(1), of ?xs] have "vote_count ?xs a \<le> vote_count ?xs (es_ans ?m)"
    using r(2) by simp
  with lt show False by simp
qed

lemma majority_vote_invariant:
  assumes p: "mset xs = mset ys"
    and u: "\<forall>r \<in> set xs. es_ans r \<noteq> a \<longrightarrow> vote_count xs (es_ans r) < vote_count xs a"
    and c: "\<forall>r \<in> set xs. \<forall>r' \<in> set xs. es_ans r = es_ans r' \<longrightarrow>
              es_correct r = es_correct r' \<and> es_dataset r = es_dataset r'"
  shows "agg_majority_vote xs = agg_majority_vote ys"
proof (cases xs)
  case Nil
  with p show ?thesis by simp
next
  case (Cons x xs')
  with p obtain y ys' where ys: "ys = y # ys'" by (cases ys) auto
  have s: "set ys = set xs" using p by (metis mset_eq_setD)
  have u': "\<forall>r \<in> set ys. es_ans r \<noteq> a \<longrightarrow> vote_count ys (es_ans r) < vote_count ys a"
    using u s vote_count_mset[OF p] by simp
  let ?mx = "modal_rep xs x xs'" and ?my = "modal_rep ys y ys'"
  have ax: "es_ans ?mx = a" using modal_rep_unique_mode[of x xs' a] u Cons by simp
  have ay: "es_ans ?my = a" using modal_rep_unique_mode[of y ys' a] u' ys by simp
  have "?mx \<in> set xs"
  proof -
    have "?mx \<in> set (x # xs')" by (rule modal_rep_mem)
    with Cons show ?thesis by simp
  qed
  moreover have "?my \<in> set xs"
  proof -
    have "?my \<in> set (y # ys')" by (rule modal_rep_mem)
    with ys s show ?thesis by simp
  qed
  ultimately have "es_correct ?mx = es_correct ?my \<and> es_dataset ?mx = es_dataset ?my"
    using c ax ay by metis
  with ax ay Cons ys show ?thesis by (simp add: agg_majority_vote_def Let_def)
qed

lemma majority_vote_earliest:
  assumes "agg_majority_vote xs = Inr d"
  shows "\<exists>i < length xs.
           d = \<lparr>fr_dataset = es_dataset (xs ! i), fr_ans = Some (es_ans (xs ! i)),
                fr_correct = es_correct (xs ! i)\<rparr> \<and>
           (\<forall>j < length xs. vote_count xs (es_ans (xs ! j)) \<le> vote_count xs (es_ans (xs ! i))) \<and>
           (\<forall>j < i. vote_count xs (es_ans (xs ! j)) < vote_count xs (es_ans (xs ! i)))"
proof (cases xs)
  case Nil
  with assms show ?thesis by (simp add: agg_majority_vote_def)
next
  case (Cons x xs')
  from modal_rep_earliest[of xs' xs x] obtain i where i: "i \<le> length xs'"
    "modal_rep xs x xs' = xs ! i"
    "\<forall>j < i. vote_count xs (es_ans (xs ! j)) < vote_count xs (es_ans (xs ! i))"
    using Cons by auto
  have "\<forall>j < length xs. vote_count xs (es_ans (xs ! j)) \<le> vote_count xs (es_ans (xs ! i))"
  proof (intro allI impI)
    fix j assume "j < length xs"
    then have "xs ! j \<in> set (x # xs')" using Cons by (metis nth_mem)
    from modal_rep_max[OF this, of xs] show "vote_count xs (es_ans (xs ! j)) \<le> vote_count xs (es_ans (xs ! i))"
      using i(2) by simp
  qed
  moreover from assms Cons i(2) have "d = \<lparr>fr_dataset = es_dataset (xs ! i), fr_ans = Some (es_ans (xs ! i)),
                fr_correct = es_correct (xs ! i)\<rparr>"
    by (auto simp add: agg_majority_vote_def Let_def)
  moreover from i(1) Cons have "i < length xs" by simp
  ultimately show ?thesis using i(3) by blast
qed


text \<open>
  C5 as stated fails: on two records with different answers the groups tie,
  the earliest group wins, and swapping the records changes the decision.
\<close>

theorem majority_vote_permutation_counterexample:
  "mset [record_a, record_b] = mset [record_b, record_a]
   \<and> agg_majority_vote [record_a, record_b] =
       Inr \<lparr>fr_dataset = ''d'', fr_ans = Some ''1'', fr_correct = True\<rparr>
   \<and> agg_majority_vote [record_b, record_a] =
       Inr \<lparr>fr_dataset = ''d'', fr_ans = Some ''2'', fr_correct = False\<rparr>"
  by (simp add: agg_majority_vote_def vote_count_def record_a_def record_b_def)

text \<open>
  C5, amended. If one answer's group is strictly larger than every other group, and records
  with the same answer carry the same correctness flag and dataset name, then
  \<open>majority_vote\<close> gives the same result on every permutation of the records. In
  general its decision is that of the earliest record whose group has maximal size: every
  record before it has a strictly smaller group, so ties go to the earliest-occurring
  group.
\<close>

theorem majority_vote_permutation_unique_mode:
  "(mset xs = mset ys \<and>
    (\<forall>r \<in> set xs. es_ans r \<noteq> a \<longrightarrow> vote_count xs (es_ans r) < vote_count xs a) \<and>
    (\<forall>r \<in> set xs. \<forall>r' \<in> set xs. es_ans r = es_ans r' \<longrightarrow>
        es_correct r = es_correct r' \<and> es_dataset r = es_dataset r')
    \<longrightarrow> agg_majority_vote xs = agg_majority_vote ys)
   \<and> (\<forall>d. agg_majority_vote xs = Inr d \<longrightarrow>
        (\<exists>i < length xs.
           d = \<lparr>fr_dataset = es_dataset (xs ! i), fr_ans = Some (es_ans (xs ! i)),
                fr_correct = es_correct (xs ! i)\<rparr> \<and>
           (\<forall>j < length xs. vote_count xs (es_ans (xs ! j)) \<le> vote_count xs (es_ans (xs ! i))) \<and>
           (\<forall>j < i. vote_count xs (es_ans (xs ! j)) < vote_count xs (es_ans (xs ! i)))))"
  using majority_vote_invariant [of xs ys a] majority_vote_earliest [of xs]
  by blast

text \<open>
  With two records of answer 1 and one of answer 2, the group of 1 wins wherever the
  record of answer 2 stands.
\<close>

theorem majority_vote_permutation_unique_mode_witness:
  "agg_majority_vote [record_b, record_a, record_a] =
     agg_majority_vote [record_a, record_b, record_a]
   \<and> agg_majority_vote [record_b, record_a, record_a] =
       Inr \<lparr>fr_dataset = ''d'', fr_ans = Some ''1'', fr_correct = True\<rparr>"
proof -
  have "mset [record_b, record_a, record_a] = mset [record_a, record_b, record_a]"
    by simp
  moreover have "\<forall>r \<in> set [record_b, record_a, record_a]. es_ans r \<noteq> ''1'' \<longrightarrow>
      vote_count [record_b, record_a, record_a] (es_ans r)
        < vote_count [record_b, record_a, record_a] ''1''"
    by (simp add: vote_count_def record_a_def record_b_def)
  moreover have "\<forall>r \<in> set [record_b, record_a, record_a].
      \<forall>r' \<in> set [record_b, record_a, record_a]. es_ans r = es_ans r' \<longrightarrow>
        es_correct r = es_correct r' \<and> es_dataset r = es_dataset r'"
    by (simp add: record_a_def record_b_def)
  ultimately have "agg_majority_vote [record_b, record_a, record_a] =
     agg_majority_vote [record_a, record_b, record_a]"
    using majority_vote_permutation_unique_mode
      [of "[record_b, record_a, record_a]" "[record_a, record_b, record_a]" "''1''"]
    by blast
  moreover have "agg_majority_vote [record_b, record_a, record_a] =
       Inr \<lparr>fr_dataset = ''d'', fr_ans = Some ''1'', fr_correct = True\<rparr>"
    by (simp add: agg_majority_vote_def vote_count_def record_a_def record_b_def)
  ultimately show ?thesis by simp
qed

section \<open>The generation loop\<close>

lemma loop_body_skipped:
  assumes "skipped env (idx, sample)"
  shows "loop_body env st (idx, sample) =
     Inr (st\<lparr>stdout := stdout st @
            [if \<not> truthy (find_prompt sample) then Warning_skipping (map fst sample)
             else Error_generation (find_prompt sample)
                    (projl (generate_output env idx (find_prompt sample)))]\<rparr>)"
  using assms
  by (auto simp: skipped_def loop_body_def Let_def split: sum.splits)

lemma loop_body_not_skipped:
  assumes "\<not> skipped env p" and "loop_body env st p = Inr st'"
  shows "generations st' = generations st @ [record_of env p]"
  using assms
  by (cases p)
     (auto simp: skipped_def loop_body_def record_of_def Let_def split: sum.splits if_splits)

lemma loop_body_completes:
  assumes "completes env (idx, sample)"
  shows "loop_body env st (idx, sample) =
     Inr (if (idx + 1) mod checkpoint_interval = 0
          then st\<lparr>generations := generations st @ [record_of env (idx, sample)],
                  checkpoint_file := Some (generations st @ [record_of env (idx, sample)]),
                  stdout := stdout st @ [Info_checkpoint (idx + 1)]\<rparr>
          else st\<lparr>generations := generations st @ [record_of env (idx, sample)]\<rparr>)"
  using assms
  by (auto simp: completes_def loop_body_def record_of_def Let_def save_jsonl_def
           split: sum.splits)

lemma gen_loop_append:
  "gen_loop env st (ps @ qs) =
     (case gen_loop env st ps of Inl e \<Rightarrow> Inl e | Inr st' \<Rightarrow> gen_loop env st' qs)"
  by (induction ps arbitrary: st) (auto split: sum.splits)

lemma gen_loop_generations:
  "gen_loop env st ps = Inr st' \<Longrightarrow>
     generations st' = generations st @ map (record_of env) (filter (\<lambda>p. \<not> skipped env p) ps)"
proof (induction ps arbitrary: st)
  case Nil then show ?case by simp
next
  case (Cons p ps)
  from Cons.prems obtain st1 where b: "loop_body env st p = Inr st1"
    and r: "gen_loop env st1 ps = Inr st'"
    by (auto split: sum.splits)
  show ?case
  proof (cases "skipped env p")
    case True
    obtain idx sample where p: "p = (idx, sample)" by (cases p)
    from loop_body_skipped[of env idx sample st] True b p
    have "generations st1 = generations st" by auto
    with Cons.IH[OF r] True show ?thesis by simp
  next
    case False
    from loop_body_not_skipped[OF False b] Cons.IH[OF r] False show ?thesis by simp
  qed
qed

lemma find_prompt_lacking:
  assumes "\<forall>k \<in> set [''question'', ''prompt'', ''input'', ''problem'']. map_of sample k = None"
  shows "find_prompt sample = PNone"
  using assms by (simp add: find_prompt_def sample_get_def)

lemma gen_loop_generations_init:
  "generate_responses env ds = Inr st \<Longrightarrow>
     generations st = map (record_of env) (filter (\<lambda>p. \<not> skipped env p) (enumerate 0 ds))"
  using gen_loop_generations[of env _ "enumerate 0 ds" st]
  by (simp add: generate_responses_def)

lemma failing_env_run:
  "generate_responses failing_env [good_sample, good_sample, malformed_sample, good_sample] =
     Inr \<lparr>generations =
            [\<lparr>gen_dataset = ''college_math'', gen_question = PStr ''What is 2 + 2?'',
              gen_response = ''The answer is 4'', gen_pred = ''4'', gen_gt_ans = PStr ''4'',
              gen_correct = None\<rparr>,
             \<lparr>gen_dataset = ''college_math'', gen_question = PStr ''What is 2 + 2?'',
              gen_response = ''The answer is 4'', gen_pred = ''4'', gen_gt_ans = PStr ''4'',
              gen_correct = None\<rparr>],
          checkpoint_file = None,
          stdout =
            [Error_generation (PStr ''What is 2 + 2?'') (Exception ''CUDA out of memory''),
             Warning_skipping [''id'', ''answer'']]\<rparr>"
  by (simp add: generate_responses_def enumerate_eq_zip upt_rec loop_body_def failing_env_def example_env_def
      good_sample_def malformed_sample_def find_prompt_def sample_get_def gt_ans_of_def
      checkpoint_interval_def Let_def)

text \<open>
  C7. A sample that has none of the four question fields makes the loop body print a
  warning and return the state otherwise unchanged; so does, with an error line, a sample
  whose generation call raises. In both cases the body returns normally, and the loop goes
  on with the rest of the samples from the state the body returned. When the loop
  finishes, the generation list holds the records of exactly the samples that were not
  skipped, in order: a skipped sample has no record in anything computed from the list.
\<close>

theorem skipped_sample_leaves_no_record:
  "((\<forall>k \<in> set [''question'', ''prompt'', ''input'', ''problem'']. map_of sample k = None) \<longrightarrow>
       loop_body env st (idx, sample) =
         Inr (st\<lparr>stdout := stdout st @ [Warning_skipping (map fst sample)]\<rparr>))
   \<and> (truthy (find_prompt sample) \<and> generate_output env idx (find_prompt sample) = Inl e \<longrightarrow>
       loop_body env st (idx, sample) =
         Inr (st\<lparr>stdout := stdout st @ [Error_generation (find_prompt sample) e]\<rparr>))
   \<and> (\<forall>st1. loop_body env st (idx, sample) = Inr st1 \<longrightarrow>
         gen_loop env st ((idx, sample) # rest) = gen_loop env st1 rest)
   \<and> (\<forall>st'. generate_responses env ds = Inr st' \<longrightarrow>
         generations st' =
           map (record_of env) (filter (\<lambda>p. \<not> skipped env p) (enumerate 0 ds)))"
proof (intro conjI impI allI)
  assume "\<forall>k \<in> set [''question'', ''prompt'', ''input'', ''problem'']. map_of sample k = None"
  then have "find_prompt sample = PNone" by (rule find_prompt_lacking)
  then show "loop_body env st (idx, sample) =
         Inr (st\<lparr>stdout := stdout st @ [Warning_skipping (map fst sample)]\<rparr>)"
    by (simp add: loop_body_def)
next
  assume "truthy (find_prompt sample) \<and> generate_output env idx (find_prompt sample) = Inl e"
  then show "loop_body env st (idx, sample) =
         Inr (st\<lparr>stdout := stdout st @ [Error_generation (find_prompt sample) e]\<rparr>)"
    by (simp add: loop_body_def)
next
  fix st1 assume "loop_body env st (idx, sample) = Inr st1"
  then show "gen_loop env st ((idx, sample) # rest) = gen_loop env st1 rest" by simp
next
  fix st' assume "generate_responses env ds = Inr st'"
  then show "generations st' =
           map (record_of env) (filter (\<lambda>p. \<not> skipped env p) (enumerate 0 ds))"
    by (rule gen_loop_generations_init)
qed


text \<open>
  With \<open>failing_env\<close>: the sample without a question and the sample of index 1, whose
  generation raises, leave the generation list as it was; of four samples two have a
  record.
\<close>

theorem skipped_sample_leaves_no_record_witness:
  "loop_body failing_env \<lparr>generations = [], checkpoint_file = None, stdout = []\<rparr>
       (2, malformed_sample) =
     Inr \<lparr>generations = [], checkpoint_file = None,
          stdout = [Warning_skipping [''id'', ''answer'']]\<rparr>
   \<and> loop_body failing_env \<lparr>generations = [], checkpoint_file = None, stdout = []\<rparr>
       (1, good_sample) =
     Inr \<lparr>generations = [], checkpoint_file = None,
          stdout = [Error_generation (PStr ''What is 2 + 2?'') (Exception ''CUDA out of memory'')]\<rparr>
   \<and> length (filter (\<lambda>p. \<not> skipped failing_env p)
         (enumerate 0 [good_sample, good_sample, malformed_sample, good_sample])) = 2"
proof -
  let ?st = "\<lparr>generations = [], checkpoint_file = None, stdout = []\<rparr>"
  let ?ds = "[good_sample, good_sample, malformed_sample, good_sample]"
  have h1: "\<forall>k \<in> set [''question'', ''prompt'', ''input'', ''problem''].
              map_of malformed_sample k = None"
    by (simp add: malformed_sample_def)
  have h2: "truthy (find_prompt good_sample) \<and>
            generate_output failing_env 1 (find_prompt good_sample) =
              Inl (Exception ''CUDA out of memory'')"
    by (simp add: failing_env_def good_sample_def find_prompt_def sample_get_def)
  have p: "find_prompt good_sample = PStr ''What is 2 + 2?''"
    by (simp add: good_sample_def find_prompt_def sample_get_def)
  have k: "map fst malformed_sample = [''id'', ''answer'']"
    by (simp add: malformed_sample_def)
  note t = skipped_sample_leaves_no_record
    [where sample = malformed_sample and env = failing_env and st = ?st and idx = 2 and ds = ?ds]
  from t h1 have a: "loop_body failing_env ?st (2, malformed_sample) =
     Inr (?st\<lparr>stdout := stdout ?st @ [Warning_skipping (map fst malformed_sample)]\<rparr>)"
    by blast
  note t' = skipped_sample_leaves_no_record
    [where sample = good_sample and env = failing_env and st = ?st and idx = 1 and ds = ?ds
       and e = "Exception ''CUDA out of memory''"]
  from t' h2 have b: "loop_body failing_env ?st (1, good_sample) =
     Inr (?st\<lparr>stdout := stdout ?st @ [Error_generation (find_prompt good_sample)
                                          (Exception ''CUDA out of memory'')]\<rparr>)"
    by blast
  from t' failing_env_run have "generations \<lparr>generations =
            [\<lparr>gen_dataset = ''college_math'', gen_question = PStr ''What is 2 + 2?'',
              gen_response = ''The answer is 4'', gen_pred = ''4'', gen_gt_ans = PStr ''4'',
              gen_correct = None\<rparr>,
             \<lparr>gen_dataset = ''college_math'', gen_question = PStr ''What is 2 + 2?'',
              gen_response = ''The answer is 4'', gen_pred = ''4'', gen_gt_ans = PStr ''4'',
              gen_correct = None\<rparr>],
          checkpoint_file = None,
          stdout =
            [Error_generation (PStr ''What is 2 + 2?'') (Exception ''CUDA out of memory''),
             Warning_skipping [''id'', ''answer'']]\<rparr> =
           map (record_of failing_env) (filter (\<lambda>p. \<not> skipped failing_env p) (enumerate 0 ?ds))"
    by blast
  then have "length (map (record_of failing_env)
               (filter (\<lambda>p. \<not> skipped failing_env p) (enumerate 0 ?ds))) = 2"
    by (metis length_Cons list.size(3) loop_state.select_convs(1) numeral_2_eq_2)
  then have c: "length (filter (\<lambda>p. \<not> skipped failing_env p) (enumerate 0 ?ds)) = 2"
    by simp
  from a b c p k show ?thesis by simp
qed

section \<open>Checkpoints\<close>

lemma ck_hit: "Suc m mod 100 = 0 \<Longrightarrow> 100 * (Suc m div 100) = Suc m"
  using mult_div_mod_eq[of 100 "Suc m"] by simp

lemma ck_miss: "Suc m mod 100 \<noteq> 0 \<Longrightarrow> Suc m div 100 = m div 100"
  by (simp add: div_Suc)

lemma ck_le: "100 * ((i + n) div 100) - i \<le> (n::nat)"
proof -
  have "100 * ((i + n) div 100) \<le> i + n" by (rule times_div_less_eq_dividend)
  then show ?thesis by linarith
qed

lemma checkpoint_step:
  assumes f: "c1 = (if i < 100 * ((i + n) div 100)
                   then Some (g0 @ take (100 * ((i + n) div 100) - i) news) else c0)"
    and n: "length news = n"
  shows "(if Suc (i + n) mod 100 = 0 then Some (g0 @ news @ [r]) else c1) =
         (if i < 100 * (Suc (i + n) div 100)
          then Some (g0 @ take (100 * (Suc (i + n) div 100) - i) (news @ [r])) else c0)"
proof (cases "Suc (i + n) mod 100 = 0")
  case True
  from ck_hit[OF True] have e: "100 * (Suc (i + n) div 100) = Suc (i + n)" .
  have "Suc (i + n) - i = Suc n" by simp
  with True n show ?thesis unfolding e by simp
next
  case False
  from ck_miss[OF False] have e: "Suc (i + n) div 100 = (i + n) div 100" .
  have "take (100 * ((i + n) div 100) - i) (news @ [r]) = take (100 * ((i + n) div 100) - i) news"
    using ck_le[of i n] n by simp
  with False f show ?thesis unfolding e by simp
qed

lemma gen_loop_all_complete:
  assumes "\<forall>p \<in> set (enumerate i ds). completes env p"
  shows "\<exists>st'. gen_loop env st (enumerate i ds) = Inr st' \<and>
           generations st' = generations st @ map (record_of env) (enumerate i ds) \<and>
           checkpoint_file st' =
             (if i < 100 * ((i + length ds) div 100)
              then Some (generations st @
                         take (100 * ((i + length ds) div 100) - i)
                              (map (record_of env) (enumerate i ds)))
              else checkpoint_file st)"
  using assms
proof (induction ds rule: rev_induct)
  case Nil
  have "100 * (i div 100) \<le> i" by (rule times_div_less_eq_dividend)
  then have "\<not> i < 100 * (i div 100)" by linarith
  then show ?case by simp
next
  case (snoc s ds)
  let ?n = "length ds"
  let ?news = "map (record_of env) (enumerate i ds)"
  let ?rec = "record_of env (i + ?n, s)"
  from snoc.prems have pre: "\<forall>p \<in> set (enumerate i ds). completes env p"
    and c: "completes env (i + ?n, s)"
    by (auto simp: enumerate_append_eq)
  from snoc.IH[OF pre] obtain st1 where
    l: "gen_loop env st (enumerate i ds) = Inr st1" and
    g: "generations st1 = generations st @ ?news" and
    f: "checkpoint_file st1 =
             (if i < 100 * ((i + ?n) div 100)
              then Some (generations st @ take (100 * ((i + ?n) div 100) - i) ?news)
              else checkpoint_file st)" by blast
  have n: "length ?news = ?n" by simp
  note step = checkpoint_step[OF f n, of ?rec]
  have e: "enumerate i (ds @ [s]) = enumerate i ds @ [(i + ?n, s)]"
    by (simp add: enumerate_append_eq)
  have m: "map (record_of env) (enumerate i (ds @ [s])) = ?news @ [?rec]"
    by (simp add: e)
  have run: "gen_loop env st (enumerate i (ds @ [s])) = loop_body env st1 (i + ?n, s)"
    by (simp add: e gen_loop_append l split: sum.splits)
  show ?case
  proof (cases "Suc (i + ?n) mod 100 = 0")
    case True
    let ?st2 = "st1\<lparr>generations := generations st1 @ [?rec],
                  checkpoint_file := Some (generations st1 @ [?rec]),
                  stdout := stdout st1 @ [Info_checkpoint (i + ?n + 1)]\<rparr>"
    have "loop_body env st1 (i + ?n, s) = Inr ?st2"
      using loop_body_completes[OF c, of st1] True by (simp add: checkpoint_interval_def)
    moreover have "generations ?st2 = generations st @ ?news @ [?rec]" using g by simp
    moreover have "checkpoint_file ?st2 = Some (generations st @ ?news @ [?rec])" using g by simp
    ultimately show ?thesis using step True unfolding run m by simp
  next
    case False
    let ?st2 = "st1\<lparr>generations := generations st1 @ [?rec]\<rparr>"
    have "loop_body env st1 (i + ?n, s) = Inr ?st2"
      using loop_body_completes[OF c, of st1] False by (simp add: checkpoint_interval_def)
    moreover have "generations ?st2 = generations st @ ?news @ [?rec]" using g by simp
    moreover have "checkpoint_file ?st2 = checkpoint_file st1" by simp
    ultimately show ?thesis using step False unfolding run m by simp
  qed
qed

lemma completes_example: "completes example_env (idx, good_sample)"
  by (simp add: completes_def example_env_def good_sample_def find_prompt_def sample_get_def
      gt_ans_of_def)

lemma all_complete_example: "\<forall>p \<in> set (enumerate i (replicate n good_sample)). completes example_env p"
  by (auto simp: in_set_enumerate_eq completes_example)

lemma skipped_malformed: "skipped env (idx, malformed_sample)"
  by (simp add: skipped_def malformed_sample_def find_prompt_def sample_get_def)

lemma generate_responses_all_complete:
  assumes "\<forall>p \<in> set (enumerate 0 ds). completes env p"
  shows "\<exists>st. generate_responses env ds = Inr st \<and>
           generations st = map (record_of env) (enumerate 0 ds) \<and>
           checkpoint_file st =
             (if length ds < 100 then None
              else Some (take (100 * (length ds div 100)) (generations st)))"
proof -
  let ?st0 = "\<lparr>generations = [], checkpoint_file = None, stdout = []\<rparr>"
  from gen_loop_all_complete[OF assms, of ?st0] obtain st where
    r: "gen_loop env ?st0 (enumerate 0 ds) = Inr st" and
    g: "generations st = map (record_of env) (enumerate 0 ds)" and
    c: "checkpoint_file st =
          (if 0 < 100 * (length ds div 100)
           then Some (take (100 * (length ds div 100)) (map (record_of env) (enumerate 0 ds)))
           else None)"
    by auto
  have "0 < 100 * (length ds div 100) \<longleftrightarrow> \<not> length ds < 100"
    by (auto simp: div_greater_zero_iff)
  with c g have "checkpoint_file st =
             (if length ds < 100 then None
              else Some (take (100 * (length ds div 100)) (generations st)))"
    by simp
  with r g show ?thesis by (auto simp: generate_responses_def)
qed

lemma run_after_skipped_first:
  "\<exists>st. generate_responses example_env (malformed_sample # replicate 149 good_sample) = Inr st
        \<and> checkpoint_file st =
            Some (take 99 (map (record_of example_env) (enumerate 1 (replicate 149 good_sample))))"
proof -
  let ?st0 = "\<lparr>generations = [], checkpoint_file = None, stdout = []\<rparr>"
  let ?st1 = "?st0\<lparr>stdout := stdout ?st0 @ [Warning_skipping (map fst malformed_sample)]\<rparr>"
  have b: "loop_body example_env ?st0 (0, malformed_sample) = Inr ?st1"
    using loop_body_skipped[OF skipped_malformed, where env = example_env and idx = 0 and st = ?st0]
    by (simp add: malformed_sample_def find_prompt_def sample_get_def)
  have e: "enumerate 0 (malformed_sample # replicate 149 good_sample) =
           (0, malformed_sample) # enumerate 1 (replicate 149 good_sample)"
    by simp
  from gen_loop_all_complete[OF all_complete_example[of 1 149], of ?st1] obtain st where
    r: "gen_loop example_env ?st1 (enumerate 1 (replicate 149 good_sample)) = Inr st" and
    c: "checkpoint_file st =
          (if 1 < 100 * ((1 + length (replicate 149 good_sample)) div 100)
           then Some (generations ?st1 @
                  take (100 * ((1 + length (replicate 149 good_sample)) div 100) - 1)
                    (map (record_of example_env) (enumerate 1 (replicate 149 good_sample))))
           else checkpoint_file ?st1)"
    by blast
  from c have "checkpoint_file st =
     Some (take 99 (map (record_of example_env) (enumerate 1 (replicate 149 good_sample))))"
    by simp
  moreover have "generate_responses example_env (malformed_sample # replicate 149 good_sample) = Inr st"
    unfolding generate_responses_def e using b r by simp
  ultimately show ?thesis by blast
qed

text \<open>
  C8 as stated fails when a sample is skipped: of 150 samples of which the
  first has no question, 149 have a record, and the checkpoint written at the sample of
  index 99 holds 99 records, not 100.
\<close>

theorem checkpoint_counterexample:
  "checkpoint_size (generate_responses example_env (malformed_sample # replicate 149 good_sample))
     = Inr (Some 99)"
proof -
  from run_after_skipped_first obtain st where
    "generate_responses example_env (malformed_sample # replicate 149 good_sample) = Inr st"
    "checkpoint_file st =
       Some (take 99 (map (record_of example_env) (enumerate 1 (replicate 149 good_sample))))"
    by blast
  then show ?thesis by (simp add: checkpoint_size_def)
qed

text \<open>
  C8, amended. When the loop body runs through on every sample (none is skipped and none
  raises in extraction), the run returns with one record per sample, and after \<open>n\<close>
  samples the checkpoint file holds exactly the first \<open>100 * (n div 100)\<close> records:
  nothing before the 100th sample, the first 100 records from the 100th to the 199th
  sample, and so on. Every write replaces the content of the file by the list accumulated
  so far.
\<close>

theorem checkpoint_every_100:
  assumes "\<forall>p \<in> set (enumerate 0 ds). completes env p"
  shows "\<exists>st. generate_responses env ds = Inr st \<and>
           generations st = map (record_of env) (enumerate 0 ds) \<and>
           checkpoint_file st =
             (if length ds < 100 then None
              else Some (take (100 * (length ds div 100)) (generations st)))"
  using assms by (rule generate_responses_all_complete)

text \<open>After 150 samples that all have a record, the file holds 100 records.\<close>

theorem checkpoint_every_100_witness:
  "checkpoint_size (generate_responses example_env (replicate 150 good_sample)) = Inr (Some 100)"
proof -
  have h: "\<forall>p \<in> set (enumerate 0 (replicate 150 good_sample)). completes example_env p"
    by (rule all_complete_example)
  from checkpoint_every_100[OF h] obtain st where
    "generate_responses example_env (replicate 150 good_sample) = Inr st"
    "generations st = map (record_of example_env) (enumerate 0 (replicate 150 good_sample))"
    "checkpoint_file st =
             (if length (replicate 150 good_sample) < 100 then None
              else Some (take (100 * (length (replicate 150 good_sample) div 100)) (generations st)))"
    by blast
  then show ?thesis by (simp add: checkpoint_size_def)
qed

section \<open>The grading loop\<close>

lemma evaluation_loop_map:
  "fst (evaluation_loop env gens) = map (\<lambda>g. fst (grade env g)) gens"
  by (induction gens) (auto split: prod.splits)

lemma evaluation_loop_stdout:
  "snd (evaluation_loop env gens) = concat (map (\<lambda>g. snd (grade env g)) gens)"
  by (induction gens) (auto split: prod.splits)

lemma grade_correct: "gen_correct (fst (grade env g)) \<noteq> None"
  by (cases "math_equal env (gen_pred g) (gen_gt_ans g)") (simp_all add: grade_def)

lemma build_eval_results_graded:
  "\<forall>g \<in> set gens. gen_correct g \<noteq> None \<Longrightarrow>
     build_eval_results gens = Inr (map (\<lambda>g. eval_result_of g (the (gen_correct g))) gens)"
  by (induction gens) (auto simp: eval_result_of_def)

lemma grade_raises:
  "math_equal env (gen_pred g) (gen_gt_ans g) = Inl e \<Longrightarrow>
     grade env g = (g\<lparr>gen_correct := Some False\<rparr>, [Error_evaluation (gen_pred g) (gen_gt_ans g) e])"
  by (simp add: grade_def)

text \<open>
  C6. The grading loop handles every record of the generation list (its result is the list
  of the graded records, of the same length). A record on which \<open>math_equal\<close> raises
  stays at its place with \<open>correct\<close> set to false, the error is printed, and the
  record has its entry in \<open>eval_results\<close>, with correctness false, like every other
  record.
\<close>

theorem grading_failure_marks_false:
  assumes "i < length gens"
    and "math_equal env (gen_pred (gens ! i)) (gen_gt_ans (gens ! i)) = Inl e"
  shows "fst (evaluation_loop env gens) = map (\<lambda>g. fst (grade env g)) gens
       \<and> length (fst (evaluation_loop env gens)) = length gens
       \<and> fst (evaluation_loop env gens) ! i = (gens ! i)\<lparr>gen_correct := Some False\<rparr>
       \<and> Error_evaluation (gen_pred (gens ! i)) (gen_gt_ans (gens ! i)) e
            \<in> set (snd (evaluation_loop env gens))
       \<and> (\<exists>eval_results.
            build_eval_results (fst (evaluation_loop env gens)) = Inr eval_results \<and>
            length eval_results = length gens \<and>
            eval_results ! i =
              \<lparr>er_dataset = gen_dataset (gens ! i),
               er_generation = [\<lparr>g_pred = gen_pred (gens ! i), g_step_rewards = None,
                                 g_correct = False\<rparr>]\<rparr>)"
proof -
  let ?out = "fst (evaluation_loop env gens)"
  have m: "?out = map (\<lambda>g. fst (grade env g)) gens" by (rule evaluation_loop_map)
  have g: "grade env (gens ! i) = ((gens ! i)\<lparr>gen_correct := Some False\<rparr>,
             [Error_evaluation (gen_pred (gens ! i)) (gen_gt_ans (gens ! i)) e])"
    using assms(2) by (rule grade_raises)
  have a: "?out ! i = (gens ! i)\<lparr>gen_correct := Some False\<rparr>"
    using assms(1) g by (simp add: m)
  have "gens ! i \<in> set gens" using assms(1) by simp
  then have b: "Error_evaluation (gen_pred (gens ! i)) (gen_gt_ans (gens ! i)) e
            \<in> set (snd (evaluation_loop env gens))"
    using g by (force simp: evaluation_loop_stdout)
  have "\<forall>g \<in> set ?out. gen_correct g \<noteq> None"
    using grade_correct[of env] by (simp add: m)
  then have r: "build_eval_results ?out =
       Inr (map (\<lambda>g. eval_result_of g (the (gen_correct g))) ?out)"
    by (rule build_eval_results_graded)
  have "map (\<lambda>g. eval_result_of g (the (gen_correct g))) ?out ! i =
         eval_result_of (?out ! i) (the (gen_correct (?out ! i)))"
    using assms(1) by (simp add: m)
  also have "\<dots> = \<lparr>er_dataset = gen_dataset (gens ! i),
               er_generation = [\<lparr>g_pred = gen_pred (gens ! i), g_step_rewards = None,
                                 g_correct = False\<rparr>]\<rparr>"
    by (simp add: a eval_result_of_def)
  finally have c: "map (\<lambda>g. eval_result_of g (the (gen_correct g))) ?out ! i =
       \<lparr>er_dataset = gen_dataset (gens ! i),
               er_generation = [\<lparr>g_pred = gen_pred (gens ! i), g_step_rewards = None,
                                 g_correct = False\<rparr>]\<rparr>" .
  have l: "length ?out = length gens" by (simp add: m)
  from m l a b r c show ?thesis by simp
qed

text \<open>
  With \<open>failing_env\<close> the grader raises on the first of \<open>two_generations\<close>: it is
  marked false, the second is graded true, and both are in \<open>eval_results\<close>.
\<close>

theorem grading_failure_marks_false_witness:
  "fst (evaluation_loop failing_env two_generations) =
     [(two_generations ! 0)\<lparr>gen_correct := Some False\<rparr>,
      (two_generations ! 1)\<lparr>gen_correct := Some True\<rparr>]
   \<and> snd (evaluation_loop failing_env two_generations) =
       [Error_evaluation ''x^2/2 +'' (PStr ''x^2/2'') (Exception ''cannot parse'')]
   \<and> build_eval_results (fst (evaluation_loop failing_env two_generations)) =
       Inr [\<lparr>er_dataset = ''college_math'',
             er_generation = [\<lparr>g_pred = ''x^2/2 +'', g_step_rewards = None, g_correct = False\<rparr>]\<rparr>,
            \<lparr>er_dataset = ''college_math'',
             er_generation = [\<lparr>g_pred = ''4'', g_step_rewards = None, g_correct = True\<rparr>]\<rparr>]"
proof -
  have h1: "0 < length two_generations" by (simp add: two_generations_def)
  have h2: "math_equal failing_env (gen_pred (two_generations ! 0)) (gen_gt_ans (two_generations ! 0))
              = Inl (Exception ''cannot parse'')"
    by (simp add: two_generations_def failing_env_def)
  from grading_failure_marks_false[OF h1 h2]
  have "fst (evaluation_loop failing_env two_generations) =
          map (\<lambda>g. fst (grade failing_env g)) two_generations" by blast
  then show ?thesis
    by (simp add: two_generations_def failing_env_def example_env_def grade_def
        evaluation_loop_stdout)
qed

section \<open>The cap on the number of samples\<close>

text \<open>
  C10 as stated fails for a negative \<open>num_test_sample\<close>: the value is
  not zero, and the slice \<open>datasets[:-1]\<close> keeps all samples but the last.
\<close>

theorem cap_negative_counterexample:
  "cap_datasets (- 1) [sample_q ''a'', sample_q ''b'', sample_q ''c''] =
     [sample_q ''a'', sample_q ''b'']"
  by (simp add: cap_datasets_def py_slice_to_def)

text \<open>
  C10, amended. With \<open>num_test_sample = 0\<close> the loaded list is left as it is, so every
  loaded sample goes through the loop. A positive value keeps exactly the first
  \<open>num_test_sample\<close> samples (all of them when fewer were loaded); a negative value
  drops the last \<open>- num_test_sample\<close> samples.
\<close>

theorem cap_datasets_cases:
  "cap_datasets 0 datasets = datasets
   \<and> (0 < n \<longrightarrow> cap_datasets n datasets = take (nat n) datasets
                \<and> length (cap_datasets n datasets) = min (nat n) (length datasets))
   \<and> (n < 0 \<longrightarrow> cap_datasets n datasets = take (length datasets - nat (- n)) datasets)"
  by (simp add: cap_datasets_def py_slice_to_def min.commute)

theorem cap_datasets_cases_witness:
  "cap_datasets 0 [sample_q ''a'', sample_q ''b'', sample_q ''c''] =
     [sample_q ''a'', sample_q ''b'', sample_q ''c'']
   \<and> cap_datasets 2 [sample_q ''a'', sample_q ''b'', sample_q ''c''] =
     [sample_q ''a'', sample_q ''b'']
   \<and> cap_datasets (- 2) [sample_q ''a'', sample_q ''b'', sample_q ''c''] = [sample_q ''a'']"
  using cap_datasets_cases [of "[sample_q ''a'', sample_q ''b'', sample_q ''c'']" 2]
    cap_datasets_cases [of "[sample_q ''a'', sample_q ''b'', sample_q ''c'']" "- 2"]
  by simp

section \<open>Effects on the store\<close>

lemma take_eq_length: "take n h' = take n h \<Longrightarrow> n \<le> length h \<Longrightarrow> n \<le> length h'"
  by (metis length_take min.absorb2 min.cobounded1 min_def)

lemma alloc_frame:
  assumes "alloc ob h = (v, h')" and "n \<le> length h"
  shows "take n h' = take n h" and "n \<le> length h'" and "v = VRef (length h)"
  using assms by (auto simp: alloc_def)

lemma project_loop_frame:
  "project_loop sample gens acc h = (r, h') \<Longrightarrow> n \<le> length h \<Longrightarrow>
     take n h' = take n h \<and> n \<le> length h'"
proof (induction gens arbitrary: acc h)
  case Nil then show ?case by simp
next
  case (Cons g gens)
  show ?case
  proof (cases "\<exists>ds p s c. get_item h sample ''dataset'' = Inr ds \<and> get_item h g ''pred'' = Inr p
                 \<and> get_or_none h g ''step_rewards'' = Inr s \<and> get_item h g ''correct'' = Inr c")
    case True
    then obtain ds p s c where x: "get_item h sample ''dataset'' = Inr ds"
      "get_item h g ''pred'' = Inr p" "get_or_none h g ''step_rewards'' = Inr s"
      "get_item h g ''correct'' = Inr c" by blast
    let ?ob = "PyDict [(''dataset'', ds), (''ans'', p), (''scores'', s), (''correct'', c)]"
    from Cons.prems(1) x have "project_loop sample gens (acc @ [VRef (length h)]) (h @ [?ob]) = (r, h')"
      by (simp add: alloc_def)
    from Cons.IH[OF this] Cons.prems(2) show ?thesis by simp
  next
    case False
    with Cons.prems have "h' = h" by (auto split: sum.splits)
    with Cons.prems show ?thesis by simp
  qed
qed

lemma list_append_frame:
  assumes "list_append (VRef a) x h = Inr h'" and "n \<le> a"
  shows "take n h' = take n h"
  using assms by (auto simp: list_append_def split: sum.splits)

lemma list_append_ref:
  assumes "list_append v x h = Inr h'"
  obtains a where "v = VRef a"
  using assms by (cases v) (auto simp: list_append_def)

lemma samples_loop_frame:
  assumes agg: "\<forall>f. M a = Some f \<longrightarrow> keeps n f"
  shows "samples_loop M k a (VRef fa) ss h = (r, h') \<Longrightarrow> n \<le> length h \<Longrightarrow> n \<le> fa \<Longrightarrow>
           take n h' = take n h"
proof (induction ss arbitrary: h)
  case Nil then show ?case by simp
next
  case (Cons s ss)
  show ?case
  proof (cases "\<exists>g gens. get_item h s ''generation'' = Inr g \<and> get_list h g = Inr gens")
    case False
    with Cons.prems(1) have "h' = h" by (auto split: sum.splits)
    then show ?thesis by simp
  next
    case True
    then obtain g gens where g: "get_item h s ''generation'' = Inr g" "get_list h g = Inr gens"
      by blast
    let ?h1 = "h @ [PyList (py_slice_to k gens)]"
    have h1: "take n ?h1 = take n h" "n \<le> length ?h1" using Cons.prems(2) by simp_all
    obtain r2 h2 where p: "project_loop s (py_slice_to k gens) [] ?h1 = (r2, h2)"
      by (cases "project_loop s (py_slice_to k gens) [] ?h1")
    from project_loop_frame[OF p h1(2)] h1(1) have h2: "take n h2 = take n h" "n \<le> length h2"
      by simp_all
    show ?thesis
    proof (cases r2)
      case (Inl e)
      with Cons.prems(1) g p have "h' = h2" by (simp add: alloc_def)
      with h2 show ?thesis by simp
    next
      case (Inr ds)
      let ?h3 = "h2 @ [PyList ds]"
      have h3: "take n ?h3 = take n h" "n \<le> length ?h3" using h2 by simp_all
      show ?thesis
      proof (cases "M a")
        case None
        with Cons.prems(1) g p Inr have "h' = ?h3" by (simp add: alloc_def)
        with h3 show ?thesis by simp
      next
        case (Some f)
        with agg have kf: "keeps n f" by simp
        obtain r4 h4 where f: "f (VRef (length h2)) ?h3 = (r4, h4)"
          by (cases "f (VRef (length h2)) ?h3")
        from kf h3(2) have "take n (snd (f (VRef (length h2)) ?h3)) = take n ?h3"
          unfolding keeps_def by blast
        with f have "take n h4 = take n ?h3" by simp
        with h3 have h4: "take n h4 = take n h" by simp
        from take_eq_length[OF h4 Cons.prems(2)] have l4: "n \<le> length h4" .
        show ?thesis
        proof (cases r4)
          case (Inl e)
          with Cons.prems(1) g p Inr Some f have "h' = h4" by (simp add: alloc_def)
          with h4 show ?thesis by simp
        next
          case r: (Inr final_result)
          show ?thesis
          proof (cases "list_append (VRef fa) final_result h4")
            case (Inl e)
            with Cons.prems(1) g p Inr Some f r have "h' = h4" by (simp add: alloc_def)
            with h4 show ?thesis by simp
          next
            case h5: (Inr h5)
            from list_append_frame[OF h5 Cons.prems(3)] h4 have t5: "take n h5 = take n h" by simp
            from take_eq_length[OF t5 Cons.prems(2)] have l5: "n \<le> length h5" .
            from Cons.prems(1) g p Inr Some f r h5
            have "samples_loop M k a (VRef fa) ss h5 = (r, h')" by (simp add: alloc_def)
            from Cons.IH[OF this l5 Cons.prems(3)] t5 show ?thesis by simp
          qed
        qed
      qed
    qed
  qed
qed

lemma compute_metrics_fn_store_frame:
  assumes "\<forall>f. M a = Some f \<longrightarrow> keeps (length h) f"
  shows "take (length h) (snd (compute_metrics_fn_store M eval_results k a h)) = h"
proof -
  let ?n = "length h" and ?h0 = "h @ [PyList []]"
  obtain r1 h1 where s: "samples_loop M k a (VRef ?n) (projr (get_list ?h0 eval_results)) ?h0 = (r1, h1)"
    by (cases "samples_loop M k a (VRef ?n) (projr (get_list ?h0 eval_results)) ?h0")
  from samples_loop_frame[OF assms s] have h1: "take ?n h1 = h" by simp
  have "snd (compute_metrics_fn_store M eval_results k a h) = ?h0
      \<or> snd (compute_metrics_fn_store M eval_results k a h) = h1"
    using s by (auto simp: compute_metrics_fn_store_def alloc_def split: sum.splits prod.splits)
  with h1 show ?thesis by auto
qed

lemma keeps_agg_pass_store: "keeps n agg_pass_store"
  by (auto simp: keeps_def agg_pass_store_def split: sum.splits list.splits)

lemma example_heap_pass:
  "fst (compute_metrics_fn_store [''pass'' \<mapsto> agg_pass_store] (VRef 7) 1 ''pass'' example_heap)
     = Inr [Metric ''college_math'' 2 1 (1 / 2), Average (1 / 2)]"
  by (simp add: compute_metrics_fn_store_def example_heap_def agg_pass_store_def alloc_def
      get_list_def get_item_def get_or_none_def deref_def list_append_def py_slice_to_def
      truth_value_def py_truediv_def append_average_def np_mean_def)

text \<open>
  The \<open>"scores"\<close> entry of a projected record is the list of the input itself: an
  aggregation function that appends to it changes the object at address 0.
\<close>

lemma example_heap_rescoring:
  "(snd (compute_metrics_fn_store [''pass'' \<mapsto> agg_rescoring] (VRef 7) 1 ''pass'' example_heap)) ! 0
     = PyList [VNum (1 / 2), VNum (3 / 4), VNum 0]"
  by (simp add: compute_metrics_fn_store_def example_heap_def agg_rescoring_def alloc_def
      get_list_def get_item_def get_or_none_def deref_def list_append_def py_slice_to_def
      truth_value_def py_truediv_def append_average_def np_mean_def)

text \<open>
  The second part: on a store that holds \<open>eval_results\<close>, the function over the store
  returns what \<open>compute_metrics_fn\<close> over values returns.
\<close>

lemma prefix_of_refl: "prefix_of h h"
  by (simp add: prefix_of_def)

lemma prefix_of_append: "prefix_of h (h @ hs)"
  by (simp add: prefix_of_def)

lemma prefix_of_length: "prefix_of h h' \<Longrightarrow> length h \<le> length h'"
proof -
  assume "prefix_of h h'"
  then have "length (take (length h) h') = length h" by (simp add: prefix_of_def)
  then show ?thesis by simp
qed

lemma prefix_of_nth: "prefix_of h h' \<Longrightarrow> a < length h \<Longrightarrow> h' ! a = h ! a"
proof -
  assume p: "prefix_of h h'" and a: "a < length h"
  have "take (length h) h' ! a = h' ! a" using a by simp
  with p show ?thesis by (simp add: prefix_of_def)
qed

lemma prefix_of_trans: "prefix_of h h' \<Longrightarrow> prefix_of h' h'' \<Longrightarrow> prefix_of h h''"
proof -
  assume p: "prefix_of h h'" and q: "prefix_of h' h''"
  from p have l: "length h \<le> length h'" by (rule prefix_of_length)
  have "take (length h) h'' = take (length h) (take (length h') h'')"
    using l by (simp add: min.absorb1)
  also have "\<dots> = take (length h) h'" using q by (simp add: prefix_of_def)
  also have "\<dots> = h" using p by (simp add: prefix_of_def)
  finally show ?thesis by (simp add: prefix_of_def)
qed

lemma prefix_of_update: "prefix_of h h' \<Longrightarrow> length h \<le> n \<Longrightarrow> prefix_of h (h'[n := ob])"
  by (simp add: prefix_of_def)

lemma deref_kept:
  assumes "prefix_of h h'" and "deref h v = Inr ob"
  shows "deref h' v = Inr ob"
proof (cases v)
  case (VRef a)
  with assms(2) have a: "a < length h" and o: "h ! a = ob"
    by (auto simp: deref_def split: if_splits)
  from prefix_of_length[OF assms(1)] a have "a < length h'" by simp
  with prefix_of_nth[OF assms(1) a] o VRef show ?thesis by (simp add: deref_def)
qed (use assms(2) in \<open>simp_all add: deref_def\<close>)

lemma get_list_kept:
  assumes "prefix_of h h'" and "get_list h v = Inr xs"
  shows "get_list h' v = Inr xs"
proof -
  from assms(2) have "deref h v = Inr (PyList xs)"
    by (auto simp: get_list_def split: sum.splits pyobj.splits)
  from deref_kept[OF assms(1) this] show ?thesis by (simp add: get_list_def)
qed

lemma get_item_kept:
  assumes "prefix_of h h'" and "get_item h v k = Inr x"
  shows "get_item h' v k = Inr x"
proof -
  from assms(2) obtain kvs where d: "deref h v = Inr (PyDict kvs)" and m: "map_of kvs k = Some x"
    by (auto simp: get_item_def split: sum.splits pyobj.splits option.splits)
  from deref_kept[OF assms(1) d] m show ?thesis by (simp add: get_item_def)
qed

lemma get_or_none_kept:
  assumes "prefix_of h h'" and "get_or_none h v k = Inr x"
  shows "get_or_none h' v k = Inr x"
proof -
  from assms(2) obtain kvs where d: "deref h v = Inr (PyDict kvs)"
    and m: "(case map_of kvs k of None \<Rightarrow> Inr VNone | Some x \<Rightarrow> Inr x) = (Inr x :: py_error + pyv)"
    by (auto simp: get_or_none_def split: sum.splits pyobj.splits)
  from deref_kept[OF assms(1) d] m show ?thesis by (simp add: get_or_none_def)
qed

lemma is_scores_kept:
  assumes "prefix_of h h'" and "is_scores h v s"
  shows "is_scores h' v s"
proof (cases s)
  case None
  with assms(2) show ?thesis by (simp add: is_scores_def)
next
  case (Some rs)
  with assms(2) have "get_list h v = Inr (map VNum rs)" by (simp add: is_scores_def)
  from get_list_kept[OF assms(1) this] Some show ?thesis by (simp add: is_scores_def)
qed

lemma is_eval_sample_kept:
  assumes "prefix_of h h'" and "is_eval_sample h v r"
  shows "is_eval_sample h' v r"
proof -
  from assms(2) obtain s where
    a: "get_item h v ''dataset'' = Inr (VStr (es_dataset r))"
       "get_item h v ''ans'' = Inr (VStr (es_ans r))"
       "get_item h v ''correct'' = Inr (VBool (es_correct r))"
       "get_item h v ''scores'' = Inr s" and b: "is_scores h s (es_scores r)"
    by (auto simp: is_eval_sample_def split: sum.splits)
  from a[THEN get_item_kept[OF assms(1)]] is_scores_kept[OF assms(1) b]
  show ?thesis by (simp add: is_eval_sample_def)
qed

lemma is_generation_kept:
  assumes "prefix_of h h'" and "is_generation h v g"
  shows "is_generation h' v g"
proof -
  from assms(2) obtain s where
    a: "get_item h v ''pred'' = Inr (VStr (g_pred g))"
       "get_item h v ''correct'' = Inr (VBool (g_correct g))"
    and c: "get_or_none h v ''step_rewards'' = Inr s" and b: "is_scores h s (g_step_rewards g)"
    by (auto simp: is_generation_def split: sum.splits)
  from a[THEN get_item_kept[OF assms(1)]] get_or_none_kept[OF assms(1) c]
    is_scores_kept[OF assms(1) b]
  show ?thesis by (simp add: is_generation_def)
qed

lemma is_decision_kept:
  assumes "prefix_of h h'" and "is_decision h v d"
  shows "is_decision h' v d"
  using assms(2) get_item_kept[OF assms(1)] by (simp add: is_decision_def)

lemma eval_samples_of_project:
  "eval_samples_of k sample = map (project (er_dataset sample)) (py_slice_to k (er_generation sample))"
  by (simp add: eval_samples_of_def project_def)

lemma is_eval_sample_new:
  assumes "is_scores h s (g_step_rewards g)"
  shows "is_eval_sample
           (h @ [PyDict [(''dataset'', VStr dsn), (''ans'', VStr (g_pred g)), (''scores'', s),
                         (''correct'', VBool (g_correct g))]])
           (VRef (length h)) (project dsn g)"
proof -
  let ?h1 = "h @ [PyDict [(''dataset'', VStr dsn), (''ans'', VStr (g_pred g)), (''scores'', s),
                         (''correct'', VBool (g_correct g))]]"
  have "is_scores ?h1 s (g_step_rewards g)"
    using is_scores_kept[OF prefix_of_append assms] .
  then show ?thesis
    by (simp add: is_eval_sample_def get_item_def deref_def project_def)
qed

lemma is_generationD:
  assumes "is_generation h v g"
  shows "\<exists>s. get_item h v ''pred'' = Inr (VStr (g_pred g)) \<and>
             get_item h v ''correct'' = Inr (VBool (g_correct g)) \<and>
             get_or_none h v ''step_rewards'' = Inr s \<and> is_scores h s (g_step_rewards g)"
  using assms by (auto simp: is_generation_def split: sum.splits)

lemma project_loop_refines:
  "list_all2 (is_generation h) grefs gs \<Longrightarrow> get_item h sample ''dataset'' = Inr (VStr dsn) \<Longrightarrow>
     \<exists>refs news. project_loop sample grefs acc h = (Inr (acc @ refs), h @ news) \<and>
           list_all2 (is_eval_sample (h @ news)) refs (map (project dsn) gs)"
proof (induction grefs arbitrary: gs acc h)
  case Nil
  then have "gs = []" by simp
  moreover have "project_loop sample [] acc h = (Inr (acc @ []), h @ [])" by simp
  ultimately show ?case by (metis list.simps(8) list_all2_Nil)
next
  case (Cons gref grefs)
  from Cons.prems(1) obtain g gs' where gs: "gs = g # gs'" and g: "is_generation h gref g"
    and rest: "list_all2 (is_generation h) grefs gs'"
    by (auto simp: list_all2_Cons1)
  from is_generationD[OF g] obtain s where
    a: "get_item h gref ''pred'' = Inr (VStr (g_pred g))"
       "get_item h gref ''correct'' = Inr (VBool (g_correct g))"
    and c: "get_or_none h gref ''step_rewards'' = Inr s" and b: "is_scores h s (g_step_rewards g)"
    by blast
  let ?ob = "PyDict [(''dataset'', VStr dsn), (''ans'', VStr (g_pred g)), (''scores'', s),
                     (''correct'', VBool (g_correct g))]"
  let ?h1 = "h @ [?ob]"
  have p: "prefix_of h ?h1" by (rule prefix_of_append)
  have step: "project_loop sample (gref # grefs) acc h =
                project_loop sample grefs (acc @ [VRef (length h)]) ?h1"
    using a c Cons.prems(2) by (simp add: alloc_def)
  have l: "list_all2 (is_generation ?h1) grefs gs'"
    using rest is_generation_kept[OF p] by (rule list_all2_mono)
  have d: "get_item ?h1 sample ''dataset'' = Inr (VStr dsn)"
    using get_item_kept[OF p Cons.prems(2)] .
  from Cons.IH[OF l d, of "acc @ [VRef (length h)]"] obtain refs news where
    r: "project_loop sample grefs (acc @ [VRef (length h)]) ?h1 =
          (Inr ((acc @ [VRef (length h)]) @ refs), ?h1 @ news)" and
    e: "list_all2 (is_eval_sample (?h1 @ news)) refs (map (project dsn) gs')" by blast
  have "is_eval_sample ?h1 (VRef (length h)) (project dsn g)" using b by (rule is_eval_sample_new)
  then have n: "is_eval_sample (?h1 @ news) (VRef (length h)) (project dsn g)"
    using is_eval_sample_kept[OF prefix_of_append] by blast
  have "project_loop sample (gref # grefs) acc h =
          (Inr (acc @ VRef (length h) # refs), h @ (?ob # news))"
    using step r by simp
  moreover have "list_all2 (is_eval_sample (h @ (?ob # news))) (VRef (length h) # refs)
                   (map (project dsn) gs)"
    using n e gs by simp
  ultimately show ?case by blast
qed

lemma py_slice_to_all2:
  "list_all2 P xs ys \<Longrightarrow> list_all2 P (py_slice_to k xs) (py_slice_to k ys)"
proof -
  assume a: "list_all2 P xs ys"
  then have "length xs = length ys" by (rule list_all2_lengthD)
  with a show ?thesis by (simp add: py_slice_to_def list_all2_takeI)
qed

lemma py_slice_to_map: "py_slice_to k (map f xs) = map f (py_slice_to k xs)"
  by (simp add: py_slice_to_def take_map)

lemma get_item_update:
  assumes "get_item h v key = Inr x" and "n < length h" and "h ! n = PyList ys"
  shows "get_item (h[n := PyList zs]) v key = Inr x"
proof -
  from assms(1) obtain a kvs where v: "v = VRef a" and a: "a < length h"
    and d: "h ! a = PyDict kvs" and m: "map_of kvs key = Some x"
    by (cases v) (auto simp: get_item_def deref_def split: if_splits pyobj.splits option.splits)
  from d assms(3) have "a \<noteq> n" by auto
  with v a d m show ?thesis by (simp add: get_item_def deref_def)
qed

lemma is_decision_update:
  assumes "is_decision h v d" and "n < length h" and "h ! n = PyList ys"
  shows "is_decision (h[n := PyList zs]) v d"
  using assms by (simp add: is_decision_def get_item_update)

lemma is_sampleD:
  assumes "is_sample h v r"
  shows "\<exists>g grefs. get_item h v ''dataset'' = Inr (VStr (er_dataset r)) \<and>
           get_item h v ''generation'' = Inr g \<and> get_list h g = Inr grefs \<and>
           list_all2 (is_generation h) grefs (er_generation r)"
  using assms by (auto simp: is_sample_def split: sum.splits)

lemma samples_loop_refines:
  assumes agg: "rel_option refines (Ms a) (Mp a)"
  shows "list_all2 (is_sample h0) srefs rs \<Longrightarrow> prefix_of h0 hc \<Longrightarrow> length h0 \<le> n \<Longrightarrow>
         results_at n hc ds \<Longrightarrow>
           (case final_results_loop Mp k a rs ds of
              Inl e \<Rightarrow> fst (samples_loop Ms k a (VRef n) srefs hc) = Inl e
            | Inr ds' \<Rightarrow>
                (\<exists>h'. samples_loop Ms k a (VRef n) srefs hc = (Inr (), h') \<and> results_at n h' ds'))"
proof (induction srefs arbitrary: rs hc ds)
  case Nil
  then have "rs = []" by simp
  with Nil show ?case by simp
next
  case (Cons sref srefs)
  from Cons.prems(1) obtain r rs' where rs: "rs = r # rs'" and s: "is_sample h0 sref r"
    and rest: "list_all2 (is_sample h0) srefs rs'"
    by (auto simp: list_all2_Cons1)
  note p0 = Cons.prems(2)
  from is_sampleD[OF s] obtain g grefs where
    d0: "get_item h0 sref ''dataset'' = Inr (VStr (er_dataset r))" and
    g0: "get_item h0 sref ''generation'' = Inr g" and
    l0: "get_list h0 g = Inr grefs" and
    a0: "list_all2 (is_generation h0) grefs (er_generation r)" by blast
  let ?sl = "py_slice_to k grefs"
  let ?h1 = "hc @ [PyList ?sl]"
  have p1: "prefix_of h0 ?h1" using p0 prefix_of_append by (rule prefix_of_trans)
  have d1: "get_item ?h1 sref ''dataset'' = Inr (VStr (er_dataset r))"
    using get_item_kept[OF p1 d0] .
  have "list_all2 (is_generation ?h1) grefs (er_generation r)"
    using a0 is_generation_kept[OF p1] by (rule list_all2_mono)
  then have a1: "list_all2 (is_generation ?h1) ?sl (py_slice_to k (er_generation r))"
    by (rule py_slice_to_all2)
  from project_loop_refines[OF a1 d1, of "[]"] obtain refs news where
    pl: "project_loop sref ?sl [] ?h1 = (Inr refs, ?h1 @ news)" and
    es: "list_all2 (is_eval_sample (?h1 @ news)) refs
           (map (project (er_dataset r)) (py_slice_to k (er_generation r)))" by auto
  let ?h2 = "?h1 @ news"
  let ?h3 = "?h2 @ [PyList refs]"
  let ?evs = "VRef (length ?h2)"
  have e3: "is_eval_samples ?h3 ?evs (eval_samples_of k r)"
  proof -
    have "list_all2 (is_eval_sample ?h3) refs (eval_samples_of k r)"
      unfolding eval_samples_of_project
      using es is_eval_sample_kept[OF prefix_of_append] by (rule list_all2_mono)
    moreover have "?h3 ! length ?h2 = PyList refs" by (rule nth_append_length)
    then have "get_list ?h3 ?evs = Inr refs" by (simp add: get_list_def deref_def)
    ultimately show ?thesis by (simp add: is_eval_samples_def)
  qed
  have c3: "prefix_of hc ?h3"
    using prefix_of_append[of hc "PyList ?sl # news @ [PyList refs]"] by simp
  have head: "samples_loop Ms k a (VRef n) (sref # srefs) hc =
     (case Ms a of
        None \<Rightarrow> (Inl KeyError, ?h3)
      | Some f \<Rightarrow>
       (case f ?evs ?h3 of
          (Inl e, h4) \<Rightarrow> (Inl e, h4)
        | (Inr final_result, h4) \<Rightarrow>
         (case list_append (VRef n) final_result h4 of
            Inl e \<Rightarrow> (Inl e, h4)
          | Inr h5 \<Rightarrow> samples_loop Ms k a (VRef n) srefs h5)))"
    using get_item_kept[OF p0 g0] get_list_kept[OF p0 l0] pl
    by (cases "Ms a") (simp_all add: alloc_def)
  show ?case
  proof (cases "Ms a")
    case None
    with agg have "Mp a = None" by (cases "Mp a") simp_all
    with None head rs show ?thesis by simp
  next
    case (Some fs)
    with agg obtain fp where fp: "Mp a = Some fp" and rf: "refines fs fp"
      by (cases "Mp a") simp_all
    obtain r4 h4 where f4: "fs ?evs ?h3 = (r4, h4)" by (cases "fs ?evs ?h3")
    from rf e3 f4 have fr: "take (length ?h3) h4 = ?h3"
      and res: "(case fp (eval_samples_of k r) of
           Inl e \<Rightarrow> r4 = Inl e
         | Inr d \<Rightarrow> (case r4 of Inr rr \<Rightarrow> is_decision h4 rr d | Inl e \<Rightarrow> False))"
      unfolding refines_def by (metis fst_conv snd_conv)+
    have p34: "prefix_of ?h3 h4" using fr by (simp add: prefix_of_def)
    have pc4: "prefix_of hc h4" using c3 p34 by (rule prefix_of_trans)
    show ?thesis
    proof (cases "fp (eval_samples_of k r)")
      case (Inl e)
      with res have "r4 = Inl e" by simp
      with head Some f4 fp Inl rs show ?thesis by simp
    next
      case (Inr d)
      with res obtain rr where r4: "r4 = Inr rr" and dec: "is_decision h4 rr d"
        by (cases r4) simp_all
      from Cons.prems(4) obtain frefs where n: "n < length hc" and fl: "hc ! n = PyList frefs"
        and old: "list_all2 (is_decision hc) frefs ds"
        by (auto simp: results_at_def split: pyobj.splits)
      have n4: "n < length h4" using n prefix_of_length[OF pc4] by simp
      have fl4: "h4 ! n = PyList frefs" using prefix_of_nth[OF pc4 n] fl by simp
      let ?h5 = "h4[n := PyList (frefs @ [rr])]"
      have ap: "list_append (VRef n) rr h4 = Inr ?h5"
        using n4 fl4 by (simp add: list_append_def get_list_def deref_def)
      have "list_all2 (is_decision h4) frefs ds"
        using old is_decision_kept[OF pc4] by (rule list_all2_mono)
      then have "list_all2 (is_decision ?h5) frefs ds"
        using is_decision_update[OF _ n4 fl4] by (rule list_all2_mono)
      moreover have "is_decision ?h5 rr d" using dec n4 fl4 by (rule is_decision_update)
      ultimately have "list_all2 (is_decision ?h5) (frefs @ [rr]) (ds @ [d])"
        by (simp add: list_all2_appendI)
      then have r5: "results_at n ?h5 (ds @ [d])" using n4 by (simp add: results_at_def)
      have "prefix_of h0 h4" using p0 pc4 by (rule prefix_of_trans)
      then have p5: "prefix_of h0 ?h5" using Cons.prems(3) by (rule prefix_of_update)
      have eq1: "samples_loop Ms k a (VRef n) (sref # srefs) hc =
                 samples_loop Ms k a (VRef n) srefs ?h5"
        using Some f4 r4 ap unfolding head by simp
      have eq2: "final_results_loop Mp k a rs ds = final_results_loop Mp k a rs' (ds @ [d])"
        using rs fp Inr by simp
      show ?thesis unfolding eq1 eq2 by (rule Cons.IH[OF rest p5 Cons.prems(3) r5])
    qed
  qed
qed

lemma read_results_decisions:
  "list_all2 (is_decision h) frefs ds \<Longrightarrow>
     read_results h frefs =
       Inr (map (\<lambda>d. \<lparr>fr_dataset = fr_dataset d, fr_ans = None, fr_correct = fr_correct d\<rparr>) ds)"
proof (induction frefs arbitrary: ds)
  case Nil then show ?case by simp
next
  case (Cons f frefs)
  from Cons.prems obtain d ds' where ds: "ds = d # ds'" and d: "is_decision h f d"
    and rest: "list_all2 (is_decision h) frefs ds'"
    by (auto simp: list_all2_Cons1)
  from d Cons.IH[OF rest] ds show ?case
    by (simp add: is_decision_def truth_value_def)
qed

lemma count_loop_without_ans:
  "count_loop (map (\<lambda>d. \<lparr>fr_dataset = fr_dataset d, fr_ans = None, fr_correct = fr_correct d\<rparr>) ds) acc
     = count_loop ds acc"
proof (induction ds arbitrary: acc)
  case Nil then show ?case by simp
next
  case (Cons d ds)
  obtain dc dcorr where "acc = (dc, dcorr)" by (cases acc)
  with Cons show ?case by simp
qed

lemma compute_metrics_fn_store_refines:
  assumes v: "is_eval_results h v rs" and agg: "rel_option refines (Ms a) (Mp a)"
  shows "fst (compute_metrics_fn_store Ms v k a h) = compute_metrics_fn Mp rs k a"
proof -
  let ?n = "length h" and ?h0 = "h @ [PyList []]"
  from v obtain srefs where l: "get_list h v = Inr srefs"
    and s: "list_all2 (is_sample h) srefs rs"
    by (auto simp: is_eval_results_def split: sum.splits)
  have p: "prefix_of h ?h0" by (rule prefix_of_append)
  have l0: "get_list ?h0 v = Inr srefs" using get_list_kept[OF p l] .
  have r0: "results_at ?n ?h0 []" by (simp add: results_at_def)
  have le: "length h \<le> ?n" by simp
  note loop = samples_loop_refines
    [where Ms = Ms and Mp = Mp and a = a and k = k, OF agg s p le r0]
  have head: "compute_metrics_fn_store Ms v k a h =
     (case samples_loop Ms k a (VRef ?n) srefs ?h0 of
        (Inl e, h1) \<Rightarrow> (Inl e, h1)
      | (Inr u, h1) \<Rightarrow>
     (case get_list h1 (VRef ?n) of
        Inl e \<Rightarrow> (Inl e, h1)
      | Inr results \<Rightarrow>
     (case read_results h1 results of
        Inl e \<Rightarrow> (Inl e, h1)
      | Inr frs \<Rightarrow>
     (case count_loop frs ([], []) of
        (dataset_counts, dataset_correct) \<Rightarrow>
     (case metrics_loop dataset_counts dataset_correct [] of
        Inl e \<Rightarrow> (Inl e, h1)
      | Inr metrics \<Rightarrow> (Inr (append_average metrics), h1))))))"
    using l0 by (simp add: compute_metrics_fn_store_def alloc_def)
  show ?thesis
  proof (cases "final_results_loop Mp k a rs []")
    case (Inl e)
    with loop have "fst (samples_loop Ms k a (VRef ?n) srefs ?h0) = Inl e" by simp
    then obtain h1 where "samples_loop Ms k a (VRef ?n) srefs ?h0 = (Inl e, h1)"
      by (cases "samples_loop Ms k a (VRef ?n) srefs ?h0") simp
    with Inl show ?thesis unfolding head by (simp add: compute_metrics_fn_def)
  next
    case (Inr ds)
    with loop obtain h1 where run: "samples_loop Ms k a (VRef ?n) srefs ?h0 = (Inr (), h1)"
      and r1: "results_at ?n h1 ds" by auto
    from r1 obtain frefs where n: "?n < length h1" and f: "h1 ! ?n = PyList frefs"
      and d: "list_all2 (is_decision h1) frefs ds"
      by (auto simp: results_at_def split: pyobj.splits)
    have g: "get_list h1 (VRef ?n) = Inr frefs" using n f by (simp add: get_list_def deref_def)
    note rd = read_results_decisions[OF d]
    obtain dc dcorr where c: "count_loop ds ([], []) = (dc, dcorr)"
      by (cases "count_loop ds ([], [])")
    have c': "count_loop (map (\<lambda>d. \<lparr>fr_dataset = fr_dataset d, fr_ans = None,
                 fr_correct = fr_correct d\<rparr>) ds) ([], []) = (dc, dcorr)"
      using c by (simp only: count_loop_without_ans)
    show ?thesis
      unfolding head run using g rd c c' Inr
      by (cases "metrics_loop dc dcorr []") (simp_all add: compute_metrics_fn_def)
  qed
qed

lemma is_eval_samplesD:
  assumes "is_eval_samples h v records"
  shows "\<exists>refs. get_list h v = Inr refs \<and> list_all2 (is_eval_sample h) refs records"
  using assms by (auto simp: is_eval_samples_def split: sum.splits)

lemma agg_pass_store_refines: "refines agg_pass_store agg_pass"
  unfolding refines_def
proof (intro allI impI)
  fix h v records assume "is_eval_samples h v records"
  from is_eval_samplesD[OF this] obtain refs where l: "get_list h v = Inr refs"
    and a: "list_all2 (is_eval_sample h) refs records" by blast
  show "take (length h) (snd (agg_pass_store v h)) = h \<and>
        (case agg_pass records of
           Inl e \<Rightarrow> fst (agg_pass_store v h) = Inl e
         | Inr d \<Rightarrow>
             (case fst (agg_pass_store v h) of
                Inr r \<Rightarrow> is_decision (snd (agg_pass_store v h)) r d
              | Inl e \<Rightarrow> False))"
  proof (cases refs)
    case Nil
    with a have "records = []" by simp
    with l Nil show ?thesis by (simp add: agg_pass_store_def agg_pass_def)
  next
    case (Cons r refs')
    with a obtain x xs where x: "records = x # xs" and e: "is_eval_sample h r x"
      by (auto simp: list_all2_Cons1)
    from e have "is_decision h r \<lparr>fr_dataset = es_dataset x, fr_ans = Some (es_ans x),
               fr_correct = es_correct x\<rparr>"
      by (simp add: is_eval_sample_def is_decision_def)
    with l Cons x show ?thesis by (simp add: agg_pass_store_def agg_pass_def)
  qed
qed

lemma example_heap_results: "is_eval_results example_heap (VRef 7) example_results"
  by (simp add: is_eval_results_def is_sample_def is_generation_def is_scores_def
      example_heap_def example_results_def get_list_def get_item_def get_or_none_def deref_def)


text \<open>
  C9. Every object that is in the store when \<open>compute_metrics_fn\<close> is called is the same
  when it returns or raises, whatever the arguments, provided the aggregation function
  itself leaves these objects as they are: the list \<open>eval_results\<close>, its samples, their
  generation lists and records and their step rewards are unchanged. All that the function
  writes is new: the slice, the projected records, \<open>eval_samples\<close> and
  \<open>final_results\<close>. And the result depends on the store only through the content of
  \<open>eval_results\<close>: when the store holds the list \<open>rs\<close> and the aggregation function
  refines one over values, the result is \<open>compute_metrics_fn\<close> of \<open>rs\<close>, \<open>k\<close>
  and \<open>agg_method\<close>.
\<close>

theorem compute_metrics_fn_leaves_store:
  "((\<forall>f. M agg_method = Some f \<longrightarrow> keeps (length h) f) \<longrightarrow>
      take (length h) (snd (compute_metrics_fn_store M eval_results k agg_method h)) = h)
   \<and> (is_eval_results h eval_results rs \<and> rel_option refines (M agg_method) (Mp agg_method) \<longrightarrow>
      fst (compute_metrics_fn_store M eval_results k agg_method h) =
        compute_metrics_fn Mp rs k agg_method)"
  using compute_metrics_fn_store_frame [of M agg_method h eval_results k]
    compute_metrics_fn_store_refines [of h eval_results rs M agg_method Mp k]
  by blast

text \<open>
  On \<open>example_heap\<close> with \<open>pass\<close>, the eight objects are as before, and the result is
  that of \<open>compute_metrics_fn\<close> on \<open>example_results\<close>: the row of
  \<open>college_math\<close> and the average.
\<close>

theorem compute_metrics_fn_leaves_store_witness:
  "take (length example_heap)
     (snd (compute_metrics_fn_store [''pass'' \<mapsto> agg_pass_store] (VRef 7) 1 ''pass''
            example_heap)) = example_heap
   \<and> fst (compute_metrics_fn_store [''pass'' \<mapsto> agg_pass_store] (VRef 7) 1 ''pass''
            example_heap) = compute_metrics_fn AGG_FN_MAP example_results 1 ''pass''
   \<and> compute_metrics_fn AGG_FN_MAP example_results 1 ''pass'' =
        Inr [Metric ''college_math'' 2 1 (1 / 2), Average (1 / 2)]"
proof -
  have k: "\<forall>f. [''pass'' \<mapsto> agg_pass_store] ''pass'' = Some f \<longrightarrow> keeps (length example_heap) f"
    by (simp add: keeps_agg_pass_store)
  have r: "rel_option refines ([''pass'' \<mapsto> agg_pass_store] ''pass'') (AGG_FN_MAP ''pass'')"
    by (simp add: AGG_FN_MAP_def agg_pass_store_refines)
  note t = compute_metrics_fn_leaves_store
    [of "[''pass'' \<mapsto> agg_pass_store]" "''pass''" example_heap "VRef 7" 1 example_results
        AGG_FN_MAP]
  from t k have a: "take (length example_heap)
     (snd (compute_metrics_fn_store [''pass'' \<mapsto> agg_pass_store] (VRef 7) 1 ''pass''
            example_heap)) = example_heap"
    by blast
  from t example_heap_results r
  have b: "fst (compute_metrics_fn_store [''pass'' \<mapsto> agg_pass_store] (VRef 7) 1 ''pass''
            example_heap) = compute_metrics_fn AGG_FN_MAP example_results 1 ''pass''"
    by blast
  from a b example_heap_pass show ?thesis by simp
qed

end
